theory Spec2Isabelle
  imports Complex_Main "HOL-Library.AList"
begin

section \<open>Strings and paths\<close>

text \<open>
  JavaScript strings are modelled as \<open>string\<close> (lists of 8-bit characters). Paths are
  taken to be ASCII; a character outside ASCII in a literal of the source is written as
  its UTF-8 bytes. \<open>toLowerCase\<close> maps the letters \<open>A\<close>..\<open>Z\<close> to \<open>a\<close>..\<open>z\<close>.
\<close>

definition toLowerCase_char :: "char \<Rightarrow> char" where
  "toLowerCase_char c =
     (let n = (of_char c :: nat) in if 65 \<le> n \<and> n \<le> 90 then char_of (n + 32) else c)"

definition toLowerCase :: "string \<Rightarrow> string" where
  "toLowerCase s = map toLowerCase_char s"

text \<open>\<open>s.replace(/\\/g, '/')\<close>: every backslash becomes a slash.\<close>

definition slashes :: "string \<Rightarrow> string" where
  "slashes s = map (\<lambda>c. if c = CHR 0x5C then CHR ''/'' else c) s"

text \<open>\<open>file.toLowerCase().replace(/\\/g, '/')\<close>, the path identity of both cycle detectors.\<close>

definition normalizeFile :: "string \<Rightarrow> string" where
  "normalizeFile file = slashes (toLowerCase file)"

text \<open>Decimal rendering of a number inside a template literal.\<close>

definition digit_char :: "nat \<Rightarrow> char" where
  "digit_char d = char_of (48 + d)"

function decimal :: "nat \<Rightarrow> string" where
  "decimal n = (if n < 10 then [digit_char n] else decimal (n div 10) @ [digit_char (n mod 10)])"
  by pat_completeness auto
termination
  by (relation "measure (\<lambda>n. n)") auto

declare decimal.simps [simp del]

text \<open>\<open>xs.join(sep)\<close>.\<close>

fun join_with :: "string \<Rightarrow> string list \<Rightarrow> string" where
  "join_with sep [] = []"
| "join_with sep [x] = x"
| "join_with sep (x # y # ys) = x @ sep @ join_with sep (y # ys)"

text \<open>
  Node's \<open>path\<close> module is the host's library, not code of the repository: the functions
  the analysers call are taken as a parameter.
\<close>

record path_lib =
  dirname :: "string \<Rightarrow> string"
  basename :: "string \<Rightarrow> string"
  extname :: "string \<Rightarrow> string"
  resolve :: "string \<Rightarrow> string \<Rightarrow> string"
  join :: "string \<Rightarrow> string \<Rightarrow> string"

text \<open>\<open>s.startsWith('.')\<close>.\<close>

definition startsWithDot :: "string \<Rightarrow> bool" where
  "startsWithDot s = (case s of [] \<Rightarrow> False | c # _ \<Rightarrow> c = CHR ''.'')"

text \<open>\<open>a.startsWith(b)\<close>.\<close>

definition startsWith :: "string \<Rightarrow> string \<Rightarrow> bool" where
  "startsWith a b = (take (length b) a = b)"

text \<open>A string in a condition: the empty string is falsy.\<close>

definition truthy :: "string \<Rightarrow> bool" where
  "truthy s = (s \<noteq> [])"

text \<open>
  \<open>s.split(sep)\<close> for a separator that matches one character at a time: the pieces
  between the separators, empty pieces included (the empty string splits into one empty
  piece).
\<close>

fun split_where :: "(char \<Rightarrow> bool) \<Rightarrow> string \<Rightarrow> string list" where
  "split_where sep [] = [[]]"
| "split_where sep (c # cs) =
     (if sep c then [] # split_where sep cs
      else (case split_where sep cs of [] \<Rightarrow> [[c]] | w # ws \<Rightarrow> (c # w) # ws))"

section \<open>The file system\<close>

text \<open>
  \<open>fs\<close> is the host's: a path names a regular file (content, modification time in
  milliseconds, size in bytes), a directory, or nothing. \<open>mtimeMs\<close> is taken as a whole
  number of milliseconds. \<open>statSync\<close> throws on a missing path and \<open>readFileSync\<close> on a
  missing path or a directory; the error is a value.
\<close>

datatype js_error = FsError | TypeError

datatype fs_node = RegularFile string nat nat | Directory nat nat

type_synonym filesystem = "string \<rightharpoonup> fs_node"

record stats =
  st_size :: nat
  st_mtimeMs :: nat

definition existsSync :: "filesystem \<Rightarrow> string \<Rightarrow> bool" where
  "existsSync fs p = (fs p \<noteq> None)"

definition statSync :: "filesystem \<Rightarrow> string \<Rightarrow> js_error + stats" where
  "statSync fs p =
     (case fs p of
        None \<Rightarrow> Inl FsError
      | Some (RegularFile content mtime sz) \<Rightarrow> Inr \<lparr>st_size = sz, st_mtimeMs = mtime\<rparr>
      | Some (Directory mtime sz) \<Rightarrow> Inr \<lparr>st_size = sz, st_mtimeMs = mtime\<rparr>)"

definition readFileSync :: "filesystem \<Rightarrow> string \<Rightarrow> js_error + string" where
  "readFileSync fs p =
     (case fs p of
        Some (RegularFile content mtime sz) \<Rightarrow> Inr content
      | _ \<Rightarrow> Inl FsError)"

section \<open>ImportParser\<close>

text \<open>
  The regular expressions of \<open>IMPORT_PATTERNS\<close>, one constructor for each different
  literal of the table:
  \<^item> \<open>ImportFrom\<close>: \<^verbatim>\<open>/(?:import\s+.*?from\s+['"](.*?)['"])/g\<close>
  \<^item> \<open>ImportBare\<close>: \<^verbatim>\<open>/(?:import\s+['"](.*?)['"])/g\<close>
  \<^item> \<open>ExportFrom\<close>: \<^verbatim>\<open>/(?:export\s+.*?from\s+['"](.*?)['"])/g\<close>
  \<^item> \<open>Require\<close>: \<^verbatim>\<open>/(?:require\(['"](.*?)['"]\))/g\<close>
  \<^item> \<open>PyFromImport\<close>: \<^verbatim>\<open>/(?:from\s+(.*?)\s+import)/g\<close>
  \<^item> \<open>PyImport\<close>: \<^verbatim>\<open>/(?:import\s+(.*?)(?:\s+as\s+.*)?$)/gm\<close>
  \<^item> \<open>QuotedImport\<close>: \<^verbatim>\<open>/import\s+['"](.*?)['"]/g\<close> (go, dart)
  \<^item> \<open>GoImportBlock\<close>: \<^verbatim>\<open>/import\s+\(\s*([\s\S]*?)\s*\)/g\<close>
  \<^item> \<open>Using\<close>: \<^verbatim>\<open>/using\s+([^;]*);/g\<close>
  \<^item> \<open>JavaImport\<close>: \<^verbatim>\<open>/import\s+([^;]*);/g\<close>
  \<^item> \<open>PhpUse\<close>: \<^verbatim>\<open>/(?:use|require|include|require_once|include_once)\s+['"]?(.*?)['"]?\s*;/g\<close>
  \<^item> \<open>RustUse\<close>: \<^verbatim>\<open>/use\s+([^;]*);/g\<close>
  \<^item> \<open>RustMod\<close>: \<^verbatim>\<open>/mod\s+([^;]*);/g\<close>
  \<^item> \<open>RubyRequire\<close>: \<^verbatim>\<open>/(?:require|require_relative)\s+['"](.*?)['"]/g\<close>
  \<^item> \<open>SwiftImport\<close>: \<^verbatim>\<open>/import\s+(.*)/g\<close>
\<close>

datatype pattern =
  ImportFrom | ImportBare | ExportFrom | Require | PyFromImport | PyImport | QuotedImport
  | GoImportBlock | Using | JavaImport | PhpUse | RustUse | RustMod | RubyRequire | SwiftImport

text \<open>The own properties of \<open>IMPORT_PATTERNS\<close>.\<close>

definition IMPORT_PATTERNS :: "string \<rightharpoonup> pattern list" where
  "IMPORT_PATTERNS = [
     ''javascript'' \<mapsto> [ImportFrom, ImportBare, ExportFrom, Require],
     ''typescript'' \<mapsto> [ImportFrom, ImportBare, ExportFrom, Require],
     ''javascriptreact'' \<mapsto> [ImportFrom, ImportBare, Require],
     ''typescriptreact'' \<mapsto> [ImportFrom, ImportBare, Require],
     ''python'' \<mapsto> [PyFromImport, PyImport],
     ''go'' \<mapsto> [QuotedImport, GoImportBlock],
     ''csharp'' \<mapsto> [Using],
     ''java'' \<mapsto> [JavaImport],
     ''php'' \<mapsto> [PhpUse],
     ''rust'' \<mapsto> [RustUse, RustMod],
     ''dart'' \<mapsto> [QuotedImport],
     ''ruby'' \<mapsto> [RubyRequire],
     ''swift'' \<mapsto> [SwiftImport]]"

text \<open>
  \<open>IMPORT_PATTERNS\<close> is an object literal, so \<open>this.regexMap[languageId]\<close> also finds the
  properties every object inherits from \<open>Object.prototype\<close>: functions, whose \<open>length\<close> is
  their number of parameters, and \<open>__proto__\<close>, the prototype object itself, which has no
  \<open>length\<close>.
\<close>

datatype table_value = RegexList "pattern list" | InheritedFunction nat | InheritedObject

definition inherited :: "string \<rightharpoonup> table_value" where
  "inherited = [
     ''constructor'' \<mapsto> InheritedFunction 1,
     ''hasOwnProperty'' \<mapsto> InheritedFunction 1,
     ''isPrototypeOf'' \<mapsto> InheritedFunction 1,
     ''propertyIsEnumerable'' \<mapsto> InheritedFunction 1,
     ''toLocaleString'' \<mapsto> InheritedFunction 0,
     ''toString'' \<mapsto> InheritedFunction 0,
     ''valueOf'' \<mapsto> InheritedFunction 0,
     ''__defineGetter__'' \<mapsto> InheritedFunction 2,
     ''__defineSetter__'' \<mapsto> InheritedFunction 2,
     ''__lookupGetter__'' \<mapsto> InheritedFunction 1,
     ''__lookupSetter__'' \<mapsto> InheritedFunction 1,
     ''__proto__'' \<mapsto> InheritedObject]"

definition regexMap :: "string \<rightharpoonup> table_value" where
  "regexMap languageId =
     (case IMPORT_PATTERNS languageId of
        Some regexes \<Rightarrow> Some (RegexList regexes)
      | None \<Rightarrow> inherited languageId)"

text \<open>
  What \<open>regex.exec(text)\<close> returns: \<open>match.index\<close>, \<open>match[0]\<close> and the capture groups
  \<open>match[1]\<close>, \<open>match[2]\<close>, ... (\<open>None\<close> for a group that did not take part, \<open>undefined\<close>
  in the source, as is every group beyond the last).
\<close>

record rmatch =
  m_index :: nat
  m_whole :: string
  m_groups :: "string option list"

text \<open>
  The execution of a regular expression is the host's: \<open>E regex text lastIndex\<close> is the
  result of \<open>regex.exec(text)\<close> for a global expression whose \<open>lastIndex\<close> is as given,
  \<open>None\<close> for \<open>null\<close>. After a match \<open>exec\<close> sets \<open>lastIndex\<close> to the end of the match.
\<close>

type_synonym engine = "pattern \<Rightarrow> string \<Rightarrow> nat \<Rightarrow> rmatch option"

definition group :: "rmatch \<Rightarrow> nat \<Rightarrow> string option" where
  "group m i = (if i = 0 then Some (m_whole m)
                else if i \<le> length (m_groups m) then m_groups m ! (i - 1) else None)"

text \<open>\<open>a || b\<close> on values that are a string or \<open>undefined\<close>.\<close>

definition or_else :: "string option \<Rightarrow> string option \<Rightarrow> string option" where
  "or_else a b = (case a of Some s \<Rightarrow> (if truthy s then a else b) | None \<Rightarrow> b)"

record import_info =
  imp_path :: string
  imp_index :: nat
  imp_length :: nat
  imp_fullMatch :: string

text \<open>The two objects the loops of \<open>_extractImports\<close> fill: \<open>imports\<close> and \<open>seen\<close>.\<close>

record extraction =
  ex_imports :: "import_info list"
  ex_seen :: "string set"

text \<open>\<open>match[1] || match[2] || match[3]\<close>.\<close>

definition importPath_of :: "rmatch \<Rightarrow> string option" where
  "importPath_of m = or_else (or_else (group m 1) (group m 2)) (group m 3)"

text \<open>The key of \<open>seen\<close>: the index in decimal, a colon, the path.\<close>

definition matchKey :: "nat \<Rightarrow> string \<Rightarrow> string" where
  "matchKey i importPath = decimal i @ '':'' @ importPath"

text \<open>The record pushed for a match whose path is \<open>importPath\<close>.\<close>

definition record_of :: "rmatch \<Rightarrow> string \<Rightarrow> import_info" where
  "record_of m importPath =
     \<lparr>imp_path = importPath, imp_index = m_index m,
      imp_length = length (m_whole m), imp_fullMatch = m_whole m\<rparr>"

text \<open>
  The body of the \<open>while\<close> loop for one match. The source builds the key before the
  test, also from an \<open>undefined\<close> path, and uses it only when the path is truthy.
\<close>

definition accept :: "rmatch \<Rightarrow> extraction \<Rightarrow> extraction" where
  "accept m acc =
     (case importPath_of m of
        None \<Rightarrow> acc
      | Some importPath \<Rightarrow>
          if truthy importPath \<and> matchKey (m_index m) importPath \<notin> ex_seen acc
          then \<lparr>ex_imports = ex_imports acc @ [record_of m importPath],
                ex_seen = insert (matchKey (m_index m) importPath) (ex_seen acc)\<rparr>
          else acc)"

text \<open>
  \<open>while ((match = regex.exec(text)) !== null)\<close>: the loop ends when \<open>exec\<close> returns
  \<open>null\<close>; the result is \<open>None\<close> when it never does.
\<close>

partial_function (option) exec_loop ::
  "engine \<Rightarrow> pattern \<Rightarrow> string \<Rightarrow> nat \<Rightarrow> extraction \<Rightarrow> extraction option"
where
  "exec_loop E regex text lastIndex acc =
     (case E regex text lastIndex of
        None \<Rightarrow> Some acc
      | Some m \<Rightarrow> exec_loop E regex text (m_index m + length (m_whole m)) (accept m acc))"

declare exec_loop.simps [code]

text \<open>\<open>for (const regex of regexes)\<close>, each expression started at \<open>lastIndex = 0\<close>.\<close>

fun extract_each :: "engine \<Rightarrow> string \<Rightarrow> pattern list \<Rightarrow> extraction \<Rightarrow> extraction option" where
  "extract_each E text [] acc = Some acc"
| "extract_each E text (regex # regexes) acc =
     (case exec_loop E regex text 0 acc of
        None \<Rightarrow> None
      | Some acc' \<Rightarrow> extract_each E text regexes acc')"

definition extractImports :: "engine \<Rightarrow> string \<Rightarrow> pattern list \<Rightarrow> import_info list option" where
  "extractImports E text regexes =
     map_option ex_imports (extract_each E text regexes \<lparr>ex_imports = [], ex_seen = {}\<rparr>)"

text \<open>
  \<open>parse\<close>: \<open>None\<close> when the call does not return, \<open>Inl\<close> when it throws: \<open>for ... of\<close>
  over an inherited function or object, which is not iterable, is a \<open>TypeError\<close>.
\<close>

definition parse :: "engine \<Rightarrow> string \<Rightarrow> string \<Rightarrow> (js_error + import_info list) option" where
  "parse E text languageId =
     (case regexMap languageId of
        None \<Rightarrow> Some (Inr [])
      | Some (RegexList regexes) \<Rightarrow>
          (if length regexes = 0 then Some (Inr [])
           else map_option Inr (extractImports E text regexes))
      | Some (InheritedFunction n) \<Rightarrow> (if n = 0 then Some (Inr []) else Some (Inl TypeError))
      | Some InheritedObject \<Rightarrow> Some (Inl TypeError))"

section \<open>DeepCycleDetector: bounded depth-first search\<close>

definition MAX_DEPTH :: nat where
  "MAX_DEPTH = 10"

text \<open>\<open>dependencyGraph\<close>: \<open>Map<string, string[]>\<close>, read by the search with \<open>get\<close> only.\<close>

type_synonym dependency_graph = "string \<rightharpoonup> string list"

text \<open>\<open>this.dependencyGraph.get(file) || []\<close> (an array, also an empty one, is truthy).\<close>

definition dependencies :: "dependency_graph \<Rightarrow> string \<Rightarrow> string list" where
  "dependencies g file = (case g file of None \<Rightarrow> [] | Some deps \<Rightarrow> deps)"

text \<open>The three mutable objects that \<open>_dfs\<close> shares with all its recursive calls.\<close>

record dfs_state =
  visited :: "string set"
  recursionStack :: "string set"
  cyclePath :: "string list"

text \<open>
  \<open>_dfs\<close> with its \<open>for (const dep of dependencies)\<close> loop as \<open>dfs_deps\<close>. The boolean is
  the returned value, the state the three objects after the call. \<open>cyclePath.pop()\<close> is
  \<open>butlast\<close> (on an empty array \<open>pop\<close> changes nothing).
\<close>

function dfs :: "dependency_graph \<Rightarrow> string \<Rightarrow> dfs_state \<Rightarrow> nat \<Rightarrow> bool \<times> dfs_state"
  and dfs_deps :: "dependency_graph \<Rightarrow> string list \<Rightarrow> dfs_state \<Rightarrow> nat \<Rightarrow> bool \<times> dfs_state"
where
  "dfs g file st depth =
     (if depth > MAX_DEPTH then (False, st)
      else let normalizedFile = normalizeFile file in
        if normalizedFile \<in> recursionStack st
        then (True, st\<lparr>cyclePath := cyclePath st @ [file]\<rparr>)
        else if normalizedFile \<in> visited st then (False, st)
        else
          (case dfs_deps g (dependencies g file)
                  (st\<lparr>visited := insert normalizedFile (visited st),
                      recursionStack := insert normalizedFile (recursionStack st),
                      cyclePath := cyclePath st @ [file]\<rparr>) (depth + 1) of
             (True, st') \<Rightarrow> (True, st')
           | (False, st') \<Rightarrow>
               (False, st'\<lparr>cyclePath := butlast (cyclePath st'),
                           recursionStack := recursionStack st' - {normalizedFile}\<rparr>)))"
| "dfs_deps g [] st depth = (False, st)"
| "dfs_deps g (dep # deps) st depth =
     (case dfs g dep st depth of
        (True, st') \<Rightarrow> (True, st')
      | (False, st') \<Rightarrow> dfs_deps g deps st' depth)"
  by pat_completeness auto
termination
  by (relation "measures [\<lambda>x. case x of Inl (g, f, st, d) \<Rightarrow> 2 * (Suc MAX_DEPTH - d)
                                        | Inr (g, ds, st, d) \<Rightarrow> 2 * (Suc MAX_DEPTH - d) + 1,
                          \<lambda>x. case x of Inl (g, f, st, d) \<Rightarrow> 0
                                        | Inr (g, ds, st, d) \<Rightarrow> length ds]") auto

record cycle_result =
  hasCycle :: bool
  cycle :: "string list"
  depth :: nat
  message :: string

text \<open>
  The message of \<open>detectDeepCycle\<close>; the two characters outside ASCII (the emoji before
  \<open>Deep\<close> and the arrow of the separator) are their UTF-8 bytes.
\<close>

definition cycle_message :: "path_lib \<Rightarrow> string list \<Rightarrow> string" where
  "cycle_message P files =
     [CHR 0xF0, CHR 0x9F, CHR 0x94, CHR 0x84] @ '' Deep Circular Dependency Detected (''
       @ decimal (length files - 1) @ '' levels) - ''
       @ join_with ('' '' @ [CHR 0xE2, CHR 0x86, CHR 0x92] @ '' '') (map (basename P) files)"

definition detectDeepCycle :: "path_lib \<Rightarrow> dependency_graph \<Rightarrow> string \<Rightarrow> cycle_result option" where
  "detectDeepCycle P g startFile =
     (case dfs g startFile \<lparr>visited = {}, recursionStack = {}, cyclePath = []\<rparr> 0 of
        (found, st) \<Rightarrow>
          if found \<and> length (cyclePath st) > 2
          then Some \<lparr>hasCycle = True, cycle = cyclePath st,
                     depth = length (cyclePath st) - 1,
                     message = cycle_message P (cyclePath st)\<rparr>
          else None)"

subsection \<open>Building the graph\<close>

definition MAX_FILES_PER_CHECK :: nat where
  "MAX_FILES_PER_CHECK = 50"

definition MAX_FILE_SIZE :: nat where
  "MAX_FILE_SIZE = 500000"

text \<open>
  \<open>EXTENSION_TO_LANGUAGE\<close> of DeepCycleDetector. The key looked up is the result of
  \<open>path.extname\<close>, which is empty or starts with a dot, so no inherited property is found.
\<close>

definition EXTENSION_TO_LANGUAGE :: "string \<rightharpoonup> string" where
  "EXTENSION_TO_LANGUAGE = [
     ''.js'' \<mapsto> ''javascript'', ''.jsx'' \<mapsto> ''javascriptreact'',
     ''.ts'' \<mapsto> ''typescript'', ''.tsx'' \<mapsto> ''typescriptreact'',
     ''.py'' \<mapsto> ''python'', ''.go'' \<mapsto> ''go'', ''.cs'' \<mapsto> ''csharp'',
     ''.java'' \<mapsto> ''java'', ''.php'' \<mapsto> ''php'', ''.rs'' \<mapsto> ''rust'',
     ''.dart'' \<mapsto> ''dart'', ''.rb'' \<mapsto> ''ruby'']"

definition getLanguageId :: "path_lib \<Rightarrow> string \<Rightarrow> string" where
  "getLanguageId P filePath =
     (case EXTENSION_TO_LANGUAGE (toLowerCase (extname P filePath)) of
        Some languageId \<Rightarrow> (if truthy languageId then languageId else ''javascript'')
      | None \<Rightarrow> ''javascript'')"

definition extensions :: "string list" where
  "extensions = [''.js'', ''.jsx'', ''.ts'', ''.tsx'', ''.mjs'', ''.cjs'', '''']"

text \<open>\<open>_resolveImportPath\<close>: the first candidate that exists, \<open>None\<close> for \<open>null\<close>.\<close>

definition resolveImportPath :: "path_lib \<Rightarrow> filesystem \<Rightarrow> string \<Rightarrow> string \<Rightarrow> string option" where
  "resolveImportPath P fs fromDir importPath =
     (let basePath = resolve P fromDir importPath in
      case find (existsSync fs) (map (\<lambda>ext. basePath @ ext) extensions) of
        Some fullPath \<Rightarrow> Some fullPath
      | None \<Rightarrow> find (existsSync fs) (map (\<lambda>ext. join P basePath (''index'' @ ext)) extensions))"

text \<open>The loop over the parsed imports that fills \<open>resolvedImports\<close>.\<close>

fun resolveImports :: "path_lib \<Rightarrow> filesystem \<Rightarrow> string \<Rightarrow> import_info list \<Rightarrow> string list" where
  "resolveImports P fs fileDir [] = []"
| "resolveImports P fs fileDir (imp # imps) =
     (if startsWithDot (imp_path imp)
      then (case resolveImportPath P fs fileDir (imp_path imp) of
              Some resolved \<Rightarrow>
                (if truthy resolved then resolved # resolveImports P fs fileDir imps
                 else resolveImports P fs fileDir imps)
            | None \<Rightarrow> resolveImports P fs fileDir imps)
      else resolveImports P fs fileDir imps)"

record detector =
  dependencyGraph :: dependency_graph
  fileTimestamps :: "string \<rightharpoonup> nat"
  isBuilding :: bool

text \<open>\<open>cachedTime && cachedTime === stats.mtimeMs\<close>: \<open>undefined\<close> and \<open>0\<close> are falsy.\<close>

definition cacheValid :: "nat option \<Rightarrow> nat \<Rightarrow> bool" where
  "cacheValid cachedTime mtime =
     (case cachedTime of None \<Rightarrow> False | Some t \<Rightarrow> t \<noteq> 0 \<and> t = mtime)"

text \<open>
  \<open>_processFileForGraph\<close>. Every error thrown inside is caught and leaves the detector as
  it is; the result is \<open>None\<close> only when \<open>parse\<close> does not return.
\<close>

definition processFileForGraph ::
  "engine \<Rightarrow> path_lib \<Rightarrow> filesystem \<Rightarrow> string \<Rightarrow> detector \<Rightarrow> detector option" where
  "processFileForGraph E P fs filePath d =
     (if \<not> existsSync fs filePath then Some d
      else case statSync fs filePath of
        Inl e \<Rightarrow> Some d
      | Inr st \<Rightarrow>
          if st_size st > MAX_FILE_SIZE then Some d
          else if cacheValid (fileTimestamps d filePath) (st_mtimeMs st) then Some d
          else case readFileSync fs filePath of
            Inl e \<Rightarrow> Some d
          | Inr content \<Rightarrow>
              (case parse E content (getLanguageId P filePath) of
                 None \<Rightarrow> None
               | Some (Inl e) \<Rightarrow> Some d
               | Some (Inr imps) \<Rightarrow>
                   Some (d\<lparr>dependencyGraph := (dependencyGraph d)
                              (filePath \<mapsto> resolveImports P fs (dirname P filePath) imps),
                            fileTimestamps := (fileTimestamps d)(filePath \<mapsto> st_mtimeMs st)\<rparr>)))"

fun processFiles ::
  "engine \<Rightarrow> path_lib \<Rightarrow> filesystem \<Rightarrow> string list \<Rightarrow> detector \<Rightarrow> detector option" where
  "processFiles E P fs [] d = Some d"
| "processFiles E P fs (filePath # filePaths) d =
     (case processFileForGraph E P fs filePath d of
        None \<Rightarrow> None
      | Some d' \<Rightarrow> processFiles E P fs filePaths d')"

text \<open>
  How a call ends, when it ends: both \<open>buildGraph\<close> and \<open>learn\<close> have no \<open>return\<close> with a
  value, so a call that returns returns \<open>undefined\<close>.
\<close>

datatype completion = ReturnsUndefined | Throws js_error

text \<open>
  \<open>buildGraph\<close>: the completion and the detector after the call, \<open>None\<close> when the call
  does not return.
\<close>

definition buildGraph ::
  "engine \<Rightarrow> path_lib \<Rightarrow> filesystem \<Rightarrow> string list \<Rightarrow> detector \<Rightarrow> (completion \<times> detector) option" where
  "buildGraph E P fs filePaths d =
     (if isBuilding d then Some (ReturnsUndefined, d)
      else case processFiles E P fs (take MAX_FILES_PER_CHECK filePaths) (d\<lparr>isBuilding := True\<rparr>) of
        None \<Rightarrow> None
      | Some d' \<Rightarrow> Some (ReturnsUndefined, d'\<lparr>isBuilding := False\<rparr>))"

section \<open>GraphAnalyzer: the direct check\<close>

text \<open>
  \<open>LRUCache\<close>: the entries of its \<open>Map\<close> in insertion order, oldest first. The values
  cached are parsed import lists.
\<close>

record lru_cache =
  limit :: nat
  cache :: "(string \<times> import_info list) list"

text \<open>\<open>Map.delete\<close> and \<open>Map.set\<close> on the entry list; a key that is set anew goes last.\<close>

definition map_delete :: "string \<Rightarrow> (string \<times> 'v) list \<Rightarrow> (string \<times> 'v) list" where
  "map_delete k entries = filter (\<lambda>e. fst e \<noteq> k) entries"

definition lru_get :: "lru_cache \<Rightarrow> string \<Rightarrow> import_info list option \<times> lru_cache" where
  "lru_get c key =
     (case map_of (cache c) key of
        None \<Rightarrow> (None, c)
      | Some val \<Rightarrow> (Some val, c\<lparr>cache := map_delete key (cache c) @ [(key, val)]\<rparr>))"

definition lru_set :: "lru_cache \<Rightarrow> string \<Rightarrow> import_info list \<Rightarrow> lru_cache" where
  "lru_set c key val =
     (let entries = (if length (cache c) \<ge> limit c
                     then (case cache c of [] \<Rightarrow> [] | (oldestKey, _) # _ \<Rightarrow> map_delete oldestKey (cache c))
                     else cache c)
      in c\<lparr>cache := map_delete key entries @ [(key, val)]\<rparr>)"

text \<open>\<open>EXTENSION_TO_LANGUAGE\<close> of GraphAnalyzer has one entry more.\<close>

definition EXTENSION_TO_LANGUAGE_ga :: "string \<rightharpoonup> string" where
  "EXTENSION_TO_LANGUAGE_ga = EXTENSION_TO_LANGUAGE(''.swift'' \<mapsto> ''swift'')"

definition getLanguageId_ga :: "path_lib \<Rightarrow> string \<Rightarrow> string" where
  "getLanguageId_ga P filePath =
     (case EXTENSION_TO_LANGUAGE_ga (toLowerCase (extname P filePath)) of
        Some languageId \<Rightarrow> (if truthy languageId then languageId else ''javascript'')
      | None \<Rightarrow> ''javascript'')"

text \<open>
  \<open>s.replace(/\.[^/.]+$/, '')\<close>: the expression matches a dot followed by one or more
  characters, none of them a slash or a dot, up to the end of the string; that can only
  be the last dot of the string.
\<close>

definition stripExtension :: "string \<Rightarrow> string" where
  "stripExtension s =
     (let r = rev s;
          ext = takeWhile (\<lambda>c. c \<noteq> CHR ''.'' \<and> c \<noteq> CHR ''/'') r;
          rest = dropWhile (\<lambda>c. c \<noteq> CHR ''.'' \<and> c \<noteq> CHR ''/'') r
      in if ext \<noteq> [] \<and> rest \<noteq> [] \<and> hd rest = CHR ''.'' then rev (tl rest) else s)"

definition areSameFile :: "string \<Rightarrow> string \<Rightarrow> bool" where
  "areSameFile pathA pathB =
     (let normalizedA = normalizeFile pathA;
          normalizedB = normalizeFile pathB
      in if normalizedA = normalizedB then True
         else let normalizedBNoExt = stripExtension normalizedB
              in if normalizedA = normalizedBNoExt \<or> startsWith normalizedA normalizedBNoExt
                 then True else False)"

text \<open>
  \<open>_getFileImports\<close>: the result (an error when \<open>statSync\<close>, \<open>readFileSync\<close> or \<open>parse\<close>
  throws) and the cache after the call. The cache key is the path, a colon and the
  modification time.
\<close>

definition getFileImports ::
  "engine \<Rightarrow> path_lib \<Rightarrow> filesystem \<Rightarrow> string \<Rightarrow> lru_cache
     \<Rightarrow> ((js_error + import_info list) \<times> lru_cache) option" where
  "getFileImports E P fs filePath c =
     (case statSync fs filePath of
        Inl e \<Rightarrow> Some (Inl e, c)
      | Inr st \<Rightarrow>
          (let cacheKey = filePath @ '':'' @ decimal (st_mtimeMs st) in
           case lru_get c cacheKey of
             (Some imps, c') \<Rightarrow> Some (Inr imps, c')
           | (None, c') \<Rightarrow>
               (case readFileSync fs filePath of
                  Inl e \<Rightarrow> Some (Inl e, c')
                | Inr fileContent \<Rightarrow>
                    (case parse E fileContent (getLanguageId_ga P filePath) of
                       None \<Rightarrow> None
                     | Some (Inl e) \<Rightarrow> Some (Inl e, c')
                     | Some (Inr imps) \<Rightarrow> Some (Inr imps, lru_set c' cacheKey imps)))))"

record cycle_check =
  isCycle :: bool
  cc_message :: string

text \<open>The loop of \<open>checkCycle\<close> over the imports of the target.\<close>

fun importsBack :: "path_lib \<Rightarrow> string \<Rightarrow> string \<Rightarrow> import_info list \<Rightarrow> bool" where
  "importsBack P sourceFile targetFile [] = False"
| "importsBack P sourceFile targetFile (imp # imps) =
     (if startsWithDot (imp_path imp)
         \<and> areSameFile (resolve P (dirname P targetFile) (imp_path imp)) sourceFile
      then True
      else importsBack P sourceFile targetFile imps)"

text \<open>
  \<open>checkCycle\<close>: the result (\<open>None\<close> for \<open>null\<close>) and the cache after the call; the outer
  \<open>None\<close> is a call that does not return.
\<close>

definition checkCycle ::
  "engine \<Rightarrow> path_lib \<Rightarrow> filesystem \<Rightarrow> lru_cache \<Rightarrow> string \<Rightarrow> string
     \<Rightarrow> (cycle_check option \<times> lru_cache) option" where
  "checkCycle E P fs c sourceFile targetFile =
     (if \<not> existsSync fs targetFile then Some (None, c)
      else if areSameFile sourceFile targetFile
      then Some (Some \<lparr>isCycle = True, cc_message = ''Self-import detected!''\<rparr>, c)
      else case getFileImports E P fs targetFile c of
        None \<Rightarrow> None
      | Some (Inl e, c') \<Rightarrow> Some (None, c')
      | Some (Inr imps, c') \<Rightarrow>
          (if importsBack P sourceFile targetFile imps
           then Some (Some \<lparr>isCycle = True,
                            cc_message = ''Circular Dependency Detected! '' @ [CHR 0x27]
                              @ basename P sourceFile @ [CHR 0x27] @ '' <-> '' @ [CHR 0x27]
                              @ basename P targetFile @ [CHR 0x27]\<rparr>, c')
           else Some (None, c')))"

section \<open>RuleEngine\<close>

text \<open>
  \<open>minimatch\<close> is a library the repository imports: \<open>mm p pattern matchBase\<close> is the result
  of \<open>minimatch(p, pattern, { matchBase })\<close>, \<open>mm p pattern False\<close> that of the call
  without options.
\<close>

type_synonym minimatch = "string \<Rightarrow> string \<Rightarrow> bool \<Rightarrow> bool"

text \<open>A rule of the configuration; \<open>disallow\<close> and \<open>message\<close> may be missing.\<close>

record rule =
  rule_source :: string
  rule_disallow :: "string list option"
  rule_message :: "string option"

record layer =
  layer_name :: string
  layer_pattern :: string

record violation =
  isViolation :: bool
  v_message :: string

definition normalizePath :: "string \<Rightarrow> string" where
  "normalizePath filePath = slashes filePath"

text \<open>The inner loop of \<open>_checkRuleViolations\<close> over \<open>rule.disallow\<close>.\<close>

fun checkDisallow :: "minimatch \<Rightarrow> string \<Rightarrow> string \<Rightarrow> rule \<Rightarrow> string list \<Rightarrow> violation option" where
  "checkDisallow mm src target r [] = None"
| "checkDisallow mm src target r (pat # pats) =
     (if mm target pat True
      then Some \<lparr>isViolation = True,
                 v_message =
                   (case rule_message r of
                      Some msg \<Rightarrow>
                        (if truthy msg then msg
                         else ''Violation: '' @ [CHR 0x27] @ src @ [CHR 0x27]
                                @ '' cannot import from '' @ [CHR 0x27] @ pat @ [CHR 0x27])
                    | None \<Rightarrow>
                        ''Violation: '' @ [CHR 0x27] @ src @ [CHR 0x27]
                          @ '' cannot import from '' @ [CHR 0x27] @ pat @ [CHR 0x27])\<rparr>
      else checkDisallow mm src target r pats)"

fun checkRuleViolations :: "minimatch \<Rightarrow> string \<Rightarrow> string \<Rightarrow> rule list \<Rightarrow> violation option" where
  "checkRuleViolations mm src target [] = None"
| "checkRuleViolations mm src target (r # rs) =
     (if mm src (rule_source r) True
      then (case rule_disallow r of
              Some pats \<Rightarrow>
                (case checkDisallow mm src target r pats of
                   Some v \<Rightarrow> Some v
                 | None \<Rightarrow> checkRuleViolations mm src target rs)
            | None \<Rightarrow> checkRuleViolations mm src target rs)
      else checkRuleViolations mm src target rs)"

text \<open>\<open>_findLayerIndex\<close>, its loop counter as the last argument.\<close>

fun findLayerIndex_from :: "minimatch \<Rightarrow> string \<Rightarrow> layer list \<Rightarrow> int \<Rightarrow> int" where
  "findLayerIndex_from mm filePath [] i = - 1"
| "findLayerIndex_from mm filePath (l # ls) i =
     (if mm filePath (layer_pattern l) False then i
      else findLayerIndex_from mm filePath ls (i + 1))"

definition findLayerIndex :: "minimatch \<Rightarrow> string \<Rightarrow> layer list \<Rightarrow> int" where
  "findLayerIndex mm filePath layers = findLayerIndex_from mm filePath layers 0"

text \<open>\<open>_checkLayerViolations\<close>; \<open>layers\<close> may be missing (\<open>!layers\<close>).\<close>

definition checkLayerViolations ::
  "minimatch \<Rightarrow> string \<Rightarrow> string \<Rightarrow> layer list option \<Rightarrow> violation option" where
  "checkLayerViolations mm src target layersOpt =
     (case layersOpt of
        None \<Rightarrow> None
      | Some layers \<Rightarrow>
          if length layers = 0 then None
          else let sourceLayerIndex = findLayerIndex mm src layers;
                   targetLayerIndex = findLayerIndex mm target layers
               in if sourceLayerIndex = - 1 \<or> targetLayerIndex = - 1 then None
                  else if sourceLayerIndex < targetLayerIndex
                  then Some \<lparr>isViolation = True,
                             v_message = ''Layer Violation: '' @ [CHR 0x27]
                               @ layer_name (layers ! nat sourceLayerIndex) @ [CHR 0x27]
                               @ '' layer cannot depend on outer '' @ [CHR 0x27]
                               @ layer_name (layers ! nat targetLayerIndex) @ [CHR 0x27]
                               @ '' layer.''\<rparr>
                  else None)"

definition validate ::
  "minimatch \<Rightarrow> string \<Rightarrow> string \<Rightarrow> rule list \<Rightarrow> layer list option \<Rightarrow> violation option" where
  "validate mm sourceRelativePath targetRelativePath rules layers =
     (let normalizedSource = normalizePath sourceRelativePath;
          normalizedTarget = normalizePath targetRelativePath
      in case checkRuleViolations mm normalizedSource normalizedTarget rules of
           Some ruleViolation \<Rightarrow> Some ruleViolation
         | None \<Rightarrow>
             (case checkLayerViolations mm normalizedSource normalizedTarget layers of
                Some layerViolation \<Rightarrow> Some layerViolation
              | None \<Rightarrow> None))"

section \<open>AIKernel\<close>

subsection \<open>Numbers\<close>

text \<open>
  A JavaScript number is an IEEE 754 binary64 value: a finite number, modelled as the real
  number it denotes, or one of \<open>NaN\<close>, \<open>Infinity\<close> and \<open>-Infinity\<close>. An arithmetic
  operation on finite numbers rounds its exact result to the nearest value with a 53-bit
  significand, ties to even: \<open>fl\<close>. The exponent range is not bounded in the model (no
  overflow to \<open>Infinity\<close>, no subnormal numbers) and the two zeros are one, \<open>+0\<close>: the
  numbers of the kernel are counts of tokens and of imports in a file, their sums,
  squares, roots and quotients, among which no \<open>-0\<close> arises. On the other values the
  operations are those of IEEE 754: a division of a finite number by zero gives \<open>NaN\<close>
  for \<open>0 / 0\<close> and an infinity otherwise. \<open>Math.sqrt\<close> is the correctly rounded square
  root, and \<open>Math.pow(x, 2)\<close> the correctly rounded square.
\<close>

definition round_ties_even :: "real \<Rightarrow> int" where
  "round_ties_even x =
     (let f = \<lfloor>x\<rfloor>; d = x - of_int f
      in if d < 1 / 2 then f else if d > 1 / 2 then f + 1 else if even f then f else f + 1)"

definition fl :: "real \<Rightarrow> real" where
  "fl x = (if x = 0 then 0
           else let e = \<lfloor>log 2 \<bar>x\<bar>\<rfloor> - 52
                in of_int (round_ties_even (x / 2 powr of_int e)) * 2 powr of_int e)"

datatype number = Finite real | NaN | Infinity | NegInfinity

text \<open>The infinity with the sign of \<open>x\<close>, for an \<open>x\<close> that is not zero.\<close>

definition infinity_of_sign :: "real \<Rightarrow> number" where
  "infinity_of_sign x = (if 0 < x then Infinity else NegInfinity)"

fun js_add :: "number \<Rightarrow> number \<Rightarrow> number" where
  "js_add (Finite x) (Finite y) = Finite (fl (x + y))"
| "js_add NaN y = NaN"
| "js_add x NaN = NaN"
| "js_add Infinity NegInfinity = NaN"
| "js_add NegInfinity Infinity = NaN"
| "js_add Infinity y = Infinity"
| "js_add x Infinity = Infinity"
| "js_add NegInfinity y = NegInfinity"
| "js_add x NegInfinity = NegInfinity"

fun js_sub :: "number \<Rightarrow> number \<Rightarrow> number" where
  "js_sub (Finite x) (Finite y) = Finite (fl (x - y))"
| "js_sub NaN y = NaN"
| "js_sub x NaN = NaN"
| "js_sub Infinity Infinity = NaN"
| "js_sub NegInfinity NegInfinity = NaN"
| "js_sub Infinity y = Infinity"
| "js_sub x Infinity = NegInfinity"
| "js_sub NegInfinity y = NegInfinity"
| "js_sub x NegInfinity = Infinity"

fun js_mul :: "number \<Rightarrow> number \<Rightarrow> number" where
  "js_mul (Finite x) (Finite y) = Finite (fl (x * y))"
| "js_mul NaN y = NaN"
| "js_mul x NaN = NaN"
| "js_mul (Finite x) Infinity = (if x = 0 then NaN else infinity_of_sign x)"
| "js_mul (Finite x) NegInfinity = (if x = 0 then NaN else infinity_of_sign (- x))"
| "js_mul Infinity (Finite y) = (if y = 0 then NaN else infinity_of_sign y)"
| "js_mul NegInfinity (Finite y) = (if y = 0 then NaN else infinity_of_sign (- y))"
| "js_mul Infinity Infinity = Infinity"
| "js_mul Infinity NegInfinity = NegInfinity"
| "js_mul NegInfinity Infinity = NegInfinity"
| "js_mul NegInfinity NegInfinity = Infinity"

text \<open>
  Division. A finite number divided by zero is \<open>NaN\<close> when it is zero itself, and the
  infinity of its sign otherwise; a finite number divided by an infinity is zero.
\<close>

fun js_div :: "number \<Rightarrow> number \<Rightarrow> number" where
  "js_div (Finite x) (Finite y) =
     (if y \<noteq> 0 then Finite (fl (x / y)) else if x = 0 then NaN else infinity_of_sign x)"
| "js_div NaN y = NaN"
| "js_div x NaN = NaN"
| "js_div (Finite x) Infinity = Finite 0"
| "js_div (Finite x) NegInfinity = Finite 0"
| "js_div Infinity (Finite y) = (if 0 \<le> y then Infinity else NegInfinity)"
| "js_div NegInfinity (Finite y) = (if 0 \<le> y then NegInfinity else Infinity)"
| "js_div Infinity Infinity = NaN"
| "js_div Infinity NegInfinity = NaN"
| "js_div NegInfinity Infinity = NaN"
| "js_div NegInfinity NegInfinity = NaN"

fun Math_sqrt :: "number \<Rightarrow> number" where
  "Math_sqrt (Finite x) = (if x < 0 then NaN else Finite (fl (sqrt x)))"
| "Math_sqrt NaN = NaN"
| "Math_sqrt Infinity = Infinity"
| "Math_sqrt NegInfinity = NaN"

text \<open>\<open>Math.pow(x, 2)\<close>.\<close>

fun Math_pow2 :: "number \<Rightarrow> number" where
  "Math_pow2 (Finite x) = Finite (fl (x * x))"
| "Math_pow2 NaN = NaN"
| "Math_pow2 Infinity = Infinity"
| "Math_pow2 NegInfinity = Infinity"

text \<open>A number in a condition: zero and \<open>NaN\<close> are falsy.\<close>

definition truthy_number :: "number \<Rightarrow> bool" where
  "truthy_number x = (x \<noteq> Finite 0 \<and> x \<noteq> NaN)"

subsection \<open>Tokens, vectors and statistics\<close>

definition MAX_FILES :: nat where
  "MAX_FILES = 500"

definition MIN_TOKEN_LENGTH :: nat where
  "MIN_TOKEN_LENGTH = 2"

definition STOP_WORDS :: "string set" where
  "STOP_WORDS = {''const'', ''let'', ''var'', ''import'', ''from'', ''require'',
     ''class'', ''function'', ''return'', ''if'', ''else'', ''this'',
     ''new'', ''export'', ''default'', ''async'', ''await'', ''for'',
     ''while'', ''do'', ''switch'', ''case'', ''break'', ''continue'',
     ''try'', ''catch'', ''finally'', ''throw'', ''null'', ''undefined'',
     ''true'', ''false''}"

text \<open>The characters of \<open>[a-zA-Z0-9_]\<close>, which are also those of \<open>\w\<close>.\<close>

definition wordChar :: "char \<Rightarrow> bool" where
  "wordChar c =
     (let n = (of_char c :: nat)
      in (97 \<le> n \<and> n \<le> 122) \<or> (65 \<le> n \<and> n \<le> 90) \<or> (48 \<le> n \<and> n \<le> 57) \<or> n = 95)"

definition tokenize :: "string \<Rightarrow> string list" where
  "tokenize content =
     filter (\<lambda>token. length token > MIN_TOKEN_LENGTH \<and> toLowerCase token \<notin> STOP_WORDS)
       (split_where (\<lambda>c. \<not> wordChar c) content)"

text \<open>
  A term vector is a \<open>Map<string, number>\<close>: its entries in insertion order.
  \<open>AList.update\<close> is \<open>Map.set\<close>: the value of a present key is replaced in place, a new
  key goes last.
\<close>

type_synonym term_vector = "(string \<times> number) list"

text \<open>\<open>vec.get(key) || 0\<close>.\<close>

definition get_or_zero :: "term_vector \<Rightarrow> string \<Rightarrow> number" where
  "get_or_zero vec key =
     (case map_of vec key of None \<Rightarrow> Finite 0 | Some v \<Rightarrow> (if truthy_number v then v else Finite 0))"

definition vectorize :: "string list \<Rightarrow> term_vector" where
  "vectorize tokens =
     foldl (\<lambda>vec token. AList.update token (js_add (get_or_zero vec token) (Finite 1)) vec) [] tokens"

text \<open>
  \<open>content.match(/\b(import|require)\b/g)\<close>: a match lies between two word boundaries, so
  it is a maximal run of word characters that is one of the two words; the matches are
  counted.
\<close>

definition countImports :: "string \<Rightarrow> nat" where
  "countImports content =
     length (filter (\<lambda>w. w = ''import'' \<or> w = ''require'') (split_where (\<lambda>c. \<not> wordChar c) content))"

text \<open>
  \<open>_cosineSimilarity\<close>. The first loop computes \<open>dotProduct\<close> and \<open>magA\<close>, the second
  \<open>magB\<close>; \<open>magA === 0\<close> holds of zero only.
\<close>

definition firstLoop :: "term_vector \<Rightarrow> term_vector \<Rightarrow> number \<times> number" where
  "firstLoop vecA vecB =
     foldl (\<lambda>(dotProduct, magA) (key, valA).
              (js_add dotProduct (js_mul valA (get_or_zero vecB key)),
               js_add magA (js_mul valA valA)))
           (Finite 0, Finite 0) vecA"

definition secondLoop :: "term_vector \<Rightarrow> number" where
  "secondLoop vecB = foldl (\<lambda>magB valB. js_add magB (js_mul valB valB)) (Finite 0) (map snd vecB)"

definition cosineSimilarity :: "term_vector \<Rightarrow> term_vector \<Rightarrow> number" where
  "cosineSimilarity vecA vecB =
     (let (dotProduct, magA) = firstLoop vecA vecB;
          magB = secondLoop vecB
      in if magA = Finite 0 \<or> magB = Finite 0 then Finite 0
         else js_div dotProduct (js_mul (Math_sqrt magA) (Math_sqrt magB)))"

record stats_model =
  mean :: number
  stdDev :: number

text \<open>\<open>_computeStats\<close>; \<open>stdDev || 1\<close> replaces a falsy value, zero or \<open>NaN\<close>.\<close>

definition computeStats :: "number list \<Rightarrow> stats_model" where
  "computeStats arr =
     (if length arr = 0 then \<lparr>mean = Finite 0, stdDev = Finite 1\<rparr>
      else let total = foldl js_add (Finite 0) arr;
               mu = js_div total (Finite (real (length arr)));
               squareDiffs = map (\<lambda>x. Math_pow2 (js_sub x mu)) arr;
               avgSquareDiff = js_div (foldl js_add (Finite 0) squareDiffs) (Finite (real (length arr)));
               sd = Math_sqrt avgSquareDiff
           in \<lparr>mean = mu, stdDev = (if truthy_number sd then sd else Finite 1)\<rparr>)"

subsection \<open>Learning\<close>

text \<open>The fields of the kernel; \<open>projectStats\<close> is the pair \<open>importCounts\<close>, \<open>loc\<close>.\<close>

record kernel =
  vectors :: "string \<rightharpoonup> term_vector"
  importCounts :: "number list"
  loc :: "number list"
  statsModel :: "stats_model option"
  isLearning :: bool

text \<open>\<open>_processFile\<close>: a file that is missing or cannot be read changes nothing.\<close>

definition processFile :: "filesystem \<Rightarrow> string \<Rightarrow> kernel \<Rightarrow> kernel" where
  "processFile fs file k =
     (if \<not> existsSync fs file then k
      else case readFileSync fs file of
        Inl e \<Rightarrow> k
      | Inr content \<Rightarrow>
          k\<lparr>vectors := (vectors k)(file \<mapsto> vectorize (tokenize content)),
            importCounts := importCounts k @ [Finite (real (countImports content))]\<rparr>)"

definition learn :: "filesystem \<Rightarrow> string list \<Rightarrow> kernel \<Rightarrow> completion \<times> kernel" where
  "learn fs filePaths k =
     (if isLearning k then (ReturnsUndefined, k)
      else let k1 = k\<lparr>isLearning := True\<rparr>;
               targetFiles = take MAX_FILES filePaths;
               k2 = k1\<lparr>importCounts := [], vectors := Map.empty\<rparr>;
               k3 = foldl (\<lambda>k file. processFile fs file k) k2 targetFiles;
               k4 = k3\<lparr>statsModel := Some (computeStats (importCounts k3))\<rparr>
           in (ReturnsUndefined, k4\<lparr>isLearning := False\<rparr>))"

section \<open>A model of the regular expressions\<close>

text \<open>
  The syntax of the expressions of the table, and their meaning as JavaScript defines it:
  a backtracking matcher that tries the alternatives in order, a greedy quantifier the
  longer match first and a lazy one the shorter first, and takes the first match at the
  leftmost position that has one. Characters are ASCII.
\<close>

datatype cset =
  Dot            \<comment> \<open>\<open>.\<close>: any character but a line terminator\<close>
  | Space        \<comment> \<open>\<open>\s\<close>\<close>
  | AnyOf string \<comment> \<open>\<open>[...]\<close>\<close>
  | NoneOf string \<comment> \<open>\<open>[^...]\<close>\<close>
  | Every        \<comment> \<open>\<open>[\s\S]\<close>\<close>

datatype regex =
  Chars string          \<comment> \<open>a sequence of literal characters\<close>
  | OneChar cset
  | Seq regex regex
  | Alt regex regex     \<comment> \<open>\<open>a|b\<close>\<close>
  | Star regex bool     \<comment> \<open>\<open>a*\<close> when the flag is true (greedy), \<open>a*?\<close> otherwise\<close>
  | Opt regex           \<comment> \<open>\<open>a?\<close>\<close>
  | Group nat regex     \<comment> \<open>the capturing group of the given number\<close>
  | Eol                 \<comment> \<open>\<open>$\<close> under the flag \<open>m\<close>\<close>

definition lineTerminator :: "char \<Rightarrow> bool" where
  "lineTerminator c = (c = CHR 0x0A \<or> c = CHR 0x0D)"

definition whiteSpace :: "char \<Rightarrow> bool" where
  "whiteSpace c = (c = CHR '' '' \<or> c = CHR 0x09 \<or> c = CHR 0x0A \<or> c = CHR 0x0B
                   \<or> c = CHR 0x0C \<or> c = CHR 0x0D)"

fun in_cset :: "cset \<Rightarrow> char \<Rightarrow> bool" where
  "in_cset Dot c = (\<not> lineTerminator c)"
| "in_cset Space c = whiteSpace c"
| "in_cset (AnyOf cs) c = (c \<in> set cs)"
| "in_cset (NoneOf cs) c = (c \<notin> set cs)"
| "in_cset Every c = True"

type_synonym captures = "nat \<rightharpoonup> string"

text \<open>
  The iterations of a quantifier: \<open>step\<close> matches the quantified expression once. An
  iteration that consumes nothing is rejected. The counter bounds the number of
  iterations; the length of the text is enough, since each consumes a character.
\<close>

fun iterate ::
  "(string \<Rightarrow> captures \<Rightarrow> (string \<times> captures) list) \<Rightarrow> bool \<Rightarrow> nat \<Rightarrow> string \<Rightarrow> captures
     \<Rightarrow> (string \<times> captures) list" where
  "iterate step greedy 0 t c = [(t, c)]"
| "iterate step greedy (Suc k) t c =
     (let more = concat (map (\<lambda>(t', c'). if length t' < length t
                                            then iterate step greedy k t' c' else [])
                           (step t c))
      in if greedy then more @ [(t, c)] else (t, c) # more)"

text \<open>
  \<open>matches r t c\<close>: the ways \<open>r\<close> matches a prefix of \<open>t\<close>, in the order the matcher tries
  them, each as the rest of the text after the match and the captures.
\<close>

fun matches :: "regex \<Rightarrow> string \<Rightarrow> captures \<Rightarrow> (string \<times> captures) list" where
  "matches (Chars s) t c = (if startsWith t s then [(drop (length s) t, c)] else [])"
| "matches (OneChar cs) t c =
     (case t of [] \<Rightarrow> [] | x # xs \<Rightarrow> if in_cset cs x then [(xs, c)] else [])"
| "matches (Seq r1 r2) t c = concat (map (\<lambda>(t', c'). matches r2 t' c') (matches r1 t c))"
| "matches (Alt r1 r2) t c = matches r1 t c @ matches r2 t c"
| "matches (Star r greedy) t c = iterate (\<lambda>t' c'. matches r t' c') greedy (length t) t c"
| "matches (Opt r) t c = filter (\<lambda>(t', c'). length t' < length t) (matches r t c) @ [(t, c)]"
| "matches (Group n r) t c =
     map (\<lambda>(t', c'). (t', c'(n \<mapsto> take (length t - length t') t))) (matches r t c)"
| "matches Eol t c = (case t of [] \<Rightarrow> [(t, c)] | x # xs \<Rightarrow> if lineTerminator x then [(t, c)] else [])"

text \<open>The number of capturing groups.\<close>

fun ngroups :: "regex \<Rightarrow> nat" where
  "ngroups (Seq r1 r2) = max (ngroups r1) (ngroups r2)"
| "ngroups (Alt r1 r2) = max (ngroups r1) (ngroups r2)"
| "ngroups (Star r greedy) = ngroups r"
| "ngroups (Opt r) = ngroups r"
| "ngroups (Group n r) = max n (ngroups r)"
| "ngroups r = 0"

text \<open>The leftmost match in \<open>t\<close>, the part of the text from position \<open>i\<close> on.\<close>

fun search :: "regex \<Rightarrow> string \<Rightarrow> nat \<Rightarrow> rmatch option" where
  "search r t i =
     (case matches r t Map.empty of
        (t', c) # _ \<Rightarrow>
          Some \<lparr>m_index = i, m_whole = take (length t - length t') t,
                m_groups = map c [1 ..< Suc (ngroups r)]\<rparr>
      | [] \<Rightarrow> (case t of [] \<Rightarrow> None | x # xs \<Rightarrow> search r xs (Suc i)))"

definition seq :: "regex list \<Rightarrow> regex" where
  "seq rs = foldr Seq rs (Chars [])"

definition plus :: "regex \<Rightarrow> regex" where
  "plus r = Seq r (Star r True)"

definition quote :: regex where
  "quote = OneChar (AnyOf [CHR 0x27, CHR 0x22])"

definition lazy_dots :: regex where
  "lazy_dots = Star (OneChar Dot) False"

definition until_semicolon :: regex where
  "until_semicolon = Star (OneChar (NoneOf '';'')) True"

fun regex_of :: "pattern \<Rightarrow> regex" where
  "regex_of ImportFrom =
     seq [Chars ''import'', plus (OneChar Space), lazy_dots, Chars ''from'', plus (OneChar Space),
          quote, Group 1 lazy_dots, quote]"
| "regex_of ImportBare =
     seq [Chars ''import'', plus (OneChar Space), quote, Group 1 lazy_dots, quote]"
| "regex_of ExportFrom =
     seq [Chars ''export'', plus (OneChar Space), lazy_dots, Chars ''from'', plus (OneChar Space),
          quote, Group 1 lazy_dots, quote]"
| "regex_of Require =
     seq [Chars ''require('', quote, Group 1 lazy_dots, quote, Chars '')'']"
| "regex_of PyFromImport =
     seq [Chars ''from'', plus (OneChar Space), Group 1 lazy_dots, plus (OneChar Space),
          Chars ''import'']"
| "regex_of PyImport =
     seq [Chars ''import'', plus (OneChar Space), Group 1 lazy_dots,
          Opt (seq [plus (OneChar Space), Chars ''as'', plus (OneChar Space),
                    Star (OneChar Dot) True]),
          Eol]"
| "regex_of QuotedImport =
     seq [Chars ''import'', plus (OneChar Space), quote, Group 1 lazy_dots, quote]"
| "regex_of GoImportBlock =
     seq [Chars ''import'', plus (OneChar Space), Chars ''('', Star (OneChar Space) True,
          Group 1 (Star (OneChar Every) False), Star (OneChar Space) True, Chars '')'']"
| "regex_of Using =
     seq [Chars ''using'', plus (OneChar Space), Group 1 until_semicolon, Chars '';'']"
| "regex_of JavaImport =
     seq [Chars ''import'', plus (OneChar Space), Group 1 until_semicolon, Chars '';'']"
| "regex_of PhpUse =
     seq [Alt (Chars ''use'') (Alt (Chars ''require'') (Alt (Chars ''include'')
            (Alt (Chars ''require_once'') (Chars ''include_once'')))),
          plus (OneChar Space), Opt quote, Group 1 lazy_dots, Opt quote,
          Star (OneChar Space) True, Chars '';'']"
| "regex_of RustUse =
     seq [Chars ''use'', plus (OneChar Space), Group 1 until_semicolon, Chars '';'']"
| "regex_of RustMod =
     seq [Chars ''mod'', plus (OneChar Space), Group 1 until_semicolon, Chars '';'']"
| "regex_of RubyRequire =
     seq [Alt (Chars ''require'') (Chars ''require_relative''), plus (OneChar Space),
          quote, Group 1 lazy_dots, quote]"
| "regex_of SwiftImport =
     seq [Chars ''import'', plus (OneChar Space), Group 1 (Star (OneChar Dot) True)]"

text \<open>
  \<open>regex.exec(text)\<close> for the global expressions of the table: the search starts at
  \<open>lastIndex\<close>, and fails at once when \<open>lastIndex\<close> is beyond the end of the text.
\<close>

definition js_exec :: engine where
  "js_exec p text lastIndex =
     (if lastIndex > length text then None
      else search (regex_of p) (drop lastIndex text) lastIndex)"

section \<open>Notions used in the statements\<close>

text \<open>A walk in the graph: each file is followed by one of its dependencies.\<close>

fun walk :: "dependency_graph \<Rightarrow> string list \<Rightarrow> bool" where
  "walk g [] = True"
| "walk g [x] = True"
| "walk g (x # y # ys) = (y \<in> set (dependencies g x) \<and> walk g (y # ys))"

text \<open>
  What a successful search adds to the path: a non-empty walk \<open>ext\<close> whose last file has
  the identity of a file on the recursion stack or of an earlier file of \<open>ext\<close>.
\<close>

definition found_ext :: "dependency_graph \<Rightarrow> dfs_state \<Rightarrow> dfs_state \<Rightarrow> string list \<Rightarrow> bool" where
  "found_ext g st st' ext \<longleftrightarrow>
     ext \<noteq> [] \<and> cyclePath st' = cyclePath st @ ext
     \<and> normalizeFile (last ext) \<in> recursionStack st \<union> normalizeFile ` set (butlast ext)
     \<and> walk g ext"

text \<open>A failed search leaves the path and the recursion stack as they were.\<close>

definition unchanged :: "dfs_state \<Rightarrow> dfs_state \<Rightarrow> bool" where
  "unchanged st st' \<longleftrightarrow> cyclePath st' = cyclePath st \<and> recursionStack st' = recursionStack st"

text \<open>
  An engine makes progress when each match it returns starts at or after \<open>lastIndex\<close>, is
  not empty and lies within the text, as the matches of the expressions of the table do.
\<close>

definition progressive :: "engine \<Rightarrow> bool" where
  "progressive E \<longleftrightarrow>
     (\<forall>regex text lastIndex m. E regex text lastIndex = Some m \<longrightarrow>
        lastIndex \<le> m_index m \<and> m_whole m \<noteq> []
        \<and> m_index m + length (m_whole m) \<le> length text)"

text \<open>The least number of characters a match of an expression consumes.\<close>

fun min_len :: "regex \<Rightarrow> nat" where
  "min_len (Chars s) = length s"
| "min_len (OneChar cs) = 1"
| "min_len (Seq r1 r2) = min_len r1 + min_len r2"
| "min_len (Alt r1 r2) = min (min_len r1) (min_len r2)"
| "min_len (Star r greedy) = 0"
| "min_len (Opt r) = 0"
| "min_len (Group n r) = min_len r"
| "min_len Eol = 0"

text \<open>
  The matches \<open>exec\<close> returns in turn from \<open>lastIndex\<close> on, at most \<open>k\<close> of them, and all the
  matches of an expression in a text (a text has no more non-empty matches in a row
  than characters).
\<close>

fun successive :: "engine \<Rightarrow> pattern \<Rightarrow> string \<Rightarrow> nat \<Rightarrow> nat \<Rightarrow> rmatch list" where
  "successive E regex text 0 lastIndex = []"
| "successive E regex text (Suc k) lastIndex =
     (case E regex text lastIndex of
        None \<Rightarrow> []
      | Some m \<Rightarrow> m # successive E regex text k (m_index m + length (m_whole m)))"

definition all_matches :: "engine \<Rightarrow> pattern \<Rightarrow> string \<Rightarrow> rmatch list" where
  "all_matches E regex text = successive E regex text (Suc (length text)) 0"

text \<open>The key under which a record is in \<open>seen\<close>.\<close>

definition key_of :: "import_info \<Rightarrow> string" where
  "key_of r = matchKey (imp_index r) (imp_path r)"

text \<open>The number a decimal string denotes.\<close>

definition undecimal :: "string \<Rightarrow> nat" where
  "undecimal s = foldl (\<lambda>a c. 10 * a + (of_char c - 48)) 0 s"

text \<open>
  \<open>i\<close> is the first layer, in list order, whose pattern matches \<open>p\<close>.
\<close>

definition firstLayer :: "minimatch \<Rightarrow> layer list \<Rightarrow> string \<Rightarrow> nat \<Rightarrow> bool" where
  "firstLayer mm layers p i \<longleftrightarrow>
     i < length layers \<and> mm p (layer_pattern (layers ! i)) False
     \<and> (\<forall>k < i. \<not> mm p (layer_pattern (layers ! k)) False)"

text \<open>The term vector with the given entries, all of them finite numbers.\<close>

definition finite_vector :: "(string \<times> real) list \<Rightarrow> term_vector" where
  "finite_vector v = map (\<lambda>(key, x). (key, Finite x)) v"

text \<open>
  The loops of \<open>_cosineSimilarity\<close> on finite numbers: the rounded sum of the rounded
  squares, from \<open>m\<close> on, and the rounded sum of the rounded products with the values of
  \<open>vecB\<close>, from \<open>d\<close> on.
\<close>

definition sum_of_squares :: "real \<Rightarrow> real list \<Rightarrow> real" where
  "sum_of_squares m xs = foldl (\<lambda>m x. fl (m + fl (x * x))) m xs"

definition value_or_zero :: "(string \<times> real) list \<Rightarrow> string \<Rightarrow> real" where
  "value_or_zero v key = (case map_of v key of None \<Rightarrow> 0 | Some x \<Rightarrow> x)"

definition sum_of_products :: "(string \<times> real) list \<Rightarrow> real \<Rightarrow> (string \<times> real) list \<Rightarrow> real" where
  "sum_of_products vecB d vecA = foldl (\<lambda>d (key, x). fl (d + fl (x * value_or_zero vecB key))) d vecA"

text \<open>
  The vector with the given counts, and the counts of the tokens of a list, each token at
  the place of its first occurrence.
\<close>

definition count_vector :: "(string \<times> nat) list \<Rightarrow> term_vector" where
  "count_vector v = finite_vector (map (\<lambda>(key, n). (key, real n)) v)"

definition histogram :: "string list \<Rightarrow> (string \<times> nat) list" where
  "histogram tokens =
     foldl (\<lambda>v token. AList.update token (Suc (case map_of v token of None \<Rightarrow> 0 | Some n \<Rightarrow> n)) v)
       [] tokens"

section \<open>An instance of the path library for the examples\<close>

text \<open>
  Node's POSIX \<open>path\<close> functions on absolute paths: the segments between slashes, with
  \<open>.\<close> dropped and \<open>..\<close> removing the segment before it.
\<close>

definition posix_segments :: "string \<Rightarrow> string list" where
  "posix_segments p = filter (\<lambda>s. s \<noteq> []) (split_where (\<lambda>c. c = CHR ''/'') p)"

fun posix_normalize :: "string list \<Rightarrow> string list \<Rightarrow> string list" where
  "posix_normalize acc [] = rev acc"
| "posix_normalize acc (s # ss) =
     (if s = ''.'' then posix_normalize acc ss
      else if s = ''..'' then posix_normalize (tl acc) ss
      else posix_normalize (s # acc) ss)"

definition posix_absolute :: "string list \<Rightarrow> string" where
  "posix_absolute segs = ''/'' @ join_with ''/'' segs"

definition posix_resolve :: "string \<Rightarrow> string \<Rightarrow> string" where
  "posix_resolve fromDir to =
     (if startsWith to ''/'' then posix_absolute (posix_normalize [] (posix_segments to))
      else posix_absolute (posix_normalize [] (posix_segments fromDir @ posix_segments to)))"

definition posix_join :: "string \<Rightarrow> string \<Rightarrow> string" where
  "posix_join a b = posix_absolute (posix_normalize [] (posix_segments a @ posix_segments b))"

definition posix_dirname :: "string \<Rightarrow> string" where
  "posix_dirname p = posix_absolute (butlast (posix_segments p))"

definition posix_basename :: "string \<Rightarrow> string" where
  "posix_basename p = (case rev (posix_segments p) of [] \<Rightarrow> [] | s # _ \<Rightarrow> s)"

definition posix_extname :: "string \<Rightarrow> string" where
  "posix_extname p =
     (let b = posix_basename p;
          ext = rev (takeWhile (\<lambda>c. c \<noteq> CHR ''.'') (rev b))
      in if CHR ''.'' \<notin> set b \<or> length ext + 1 = length b then [] else CHR ''.'' # ext)"

definition posix :: path_lib where
  "posix = \<lparr>dirname = posix_dirname, basename = posix_basename, extname = posix_extname,
            resolve = posix_resolve, join = posix_join\<rparr>"

section \<open>An instance of minimatch for the examples\<close>

text \<open>
  Patterns of the form \<open>dir/**\<close>, which match the paths below \<open>dir\<close>; every other pattern
  matches the path equal to it.
\<close>

definition example_glob :: minimatch where
  "example_glob p pat matchBase =
     (if take 2 (rev pat) = ''**'' then startsWith p (take (length pat - 2) pat) else p = pat)"

section \<open>Properties of the deep cycle search\<close>

declare dfs.simps [simp del]

lemmas eval_strings =
  normalizeFile_def slashes_def toLowerCase_def toLowerCase_char_def digit_char_def
  char_of_def bit_Suc_0_iff decimal.simps

lemma walk_Cons: "ys \<noteq> [] \<Longrightarrow> walk g (x # ys) = (hd ys \<in> set (dependencies g x) \<and> walk g ys)"
  by (cases ys) auto

lemma dfs_too_deep: "dp > MAX_DEPTH \<Longrightarrow> dfs g f st dp = (False, st)"
  by (subst dfs.simps) simp

lemma dfs_on_stack:
  "\<not> dp > MAX_DEPTH \<Longrightarrow> normalizeFile f \<in> recursionStack st \<Longrightarrow>
   dfs g f st dp = (True, st\<lparr>cyclePath := cyclePath st @ [f]\<rparr>)"
  by (subst dfs.simps) simp

lemma dfs_visited:
  "\<not> dp > MAX_DEPTH \<Longrightarrow> normalizeFile f \<notin> recursionStack st \<Longrightarrow>
   normalizeFile f \<in> visited st \<Longrightarrow> dfs g f st dp = (False, st)"
  by (subst dfs.simps) simp

lemma dfs_descend:
  "\<not> dp > MAX_DEPTH \<Longrightarrow> normalizeFile f \<notin> recursionStack st \<Longrightarrow>
   normalizeFile f \<notin> visited st \<Longrightarrow>
   dfs g f st dp =
     (case dfs_deps g (dependencies g f)
             (st\<lparr>visited := insert (normalizeFile f) (visited st),
                 recursionStack := insert (normalizeFile f) (recursionStack st),
                 cyclePath := cyclePath st @ [f]\<rparr>) (dp + 1) of
        (True, st') \<Rightarrow> (True, st')
      | (False, st') \<Rightarrow>
          (False, st'\<lparr>cyclePath := butlast (cyclePath st'),
                      recursionStack := recursionStack st' - {normalizeFile f}\<rparr>))"
  by (subst dfs.simps) (simp add: Let_def)

lemma found_ext_push:
  assumes "found_ext g (st\<lparr>visited := V, recursionStack := insert (normalizeFile f) (recursionStack st),
                 cyclePath := cyclePath st @ [f]\<rparr>) st2 ext"
    and "hd ext \<in> set (dependencies g f)"
  shows "found_ext g st st2 (f # ext)"
proof -
  from assms(1) have ne: "ext \<noteq> []" and p: "cyclePath st2 = (cyclePath st @ [f]) @ ext"
    and l: "normalizeFile (last ext) \<in> insert (normalizeFile f) (recursionStack st) \<union> normalizeFile ` set (butlast ext)"
    and w: "walk g ext"
    by (simp_all add: found_ext_def)
  from ne have b: "butlast (f # ext) = f # butlast ext" and la: "last (f # ext) = last ext" by simp_all
  from l have "normalizeFile (last (f # ext)) \<in> recursionStack st \<union> normalizeFile ` set (butlast (f # ext))"
    unfolding b la by auto
  moreover from w assms(2) ne have "walk g (f # ext)" by (simp add: walk_Cons)
  moreover from p have "cyclePath st2 = cyclePath st @ f # ext" by simp
  ultimately show ?thesis unfolding found_ext_def by blast
qed

lemma found_ext_unchanged:
  "unchanged st st1 \<Longrightarrow> found_ext g st1 st' ext \<Longrightarrow> found_ext g st st' ext"
  by (simp add: found_ext_def unchanged_def)

lemma unchanged_trans: "unchanged st st1 \<Longrightarrow> unchanged st1 st2 \<Longrightarrow> unchanged st st2"
  by (simp add: unchanged_def)

lemma unchanged_pop:
  assumes "unchanged (st\<lparr>visited := V, recursionStack := insert n (recursionStack st),
                 cyclePath := cyclePath st @ [f]\<rparr>) st2" and "n \<notin> recursionStack st"
  shows "unchanged st (st2\<lparr>cyclePath := butlast (cyclePath st2), recursionStack := recursionStack st2 - {n}\<rparr>)"
  using assms by (simp add: unchanged_def)

lemma dfs_inv:
  "dfs g src st d = (b, st') \<Longrightarrow>
     (if b then (\<exists>ext. found_ext g st st' ext \<and> hd ext = src) else unchanged st st')"
    "dfs_deps g ds st d = (b, st') \<Longrightarrow>
     (if b then (\<exists>ext. found_ext g st st' ext \<and> hd ext \<in> set ds) else unchanged st st')"
proof (induction g src st d and g ds st d arbitrary: b st' and b st' rule: dfs_dfs_deps.induct)
  case (1 g src st dp)
  show ?case
  proof (cases "dp > MAX_DEPTH")
    case True
    with "1.prems" show ?thesis by (simp add: dfs_too_deep unchanged_def)
  next
    case deep: False
    show ?thesis
    proof (cases "normalizeFile src \<in> recursionStack st")
      case True
      with deep "1.prems" have "b" "st' = st\<lparr>cyclePath := cyclePath st @ [src]\<rparr>"
        by (auto simp add: dfs_on_stack)
      then show ?thesis using True by (auto simp: found_ext_def intro!: exI[of _ "[src]"])
    next
      case nstack: False
      show ?thesis
      proof (cases "normalizeFile src \<in> visited st")
        case True
        with deep nstack "1.prems" show ?thesis by (simp add: dfs_visited unchanged_def)
      next
        case nvis: False
        define st1 where "st1 = st\<lparr>visited := insert (normalizeFile src) (visited st),
                      recursionStack := insert (normalizeFile src) (recursionStack st),
                      cyclePath := cyclePath st @ [src]\<rparr>"
        obtain b2 st2 where r: "dfs_deps g (dependencies g src) st1 (dp + 1) = (b2, st2)"
          by (cases "dfs_deps g (dependencies g src) st1 (dp + 1)") 
        have IH: "if b2 then (\<exists>ext. found_ext g st1 st2 ext \<and> hd ext \<in> set (dependencies g src)) else unchanged st1 st2"
          using "1.IH"[OF deep refl nstack nvis r[unfolded st1_def]] unfolding st1_def .
        show ?thesis
        proof (cases b2)
          case True
          with IH obtain ext where e: "found_ext g st1 st2 ext" "hd ext \<in> set (dependencies g src)" by auto
          from True r deep nstack nvis "1.prems" have bs: "b" "st' = st2"
            by (auto simp add: dfs_descend st1_def)
          have "found_ext g st st' (src # ext)"
            using found_ext_push[OF e(1)[unfolded st1_def] e(2)] bs by simp
          then have "\<exists>e. found_ext g st st' e \<and> hd e = src" by (intro exI[of _ "src # ext"]) simp
          then show ?thesis using bs by simp
        next
          case False
          with IH have u: "unchanged st1 st2" by simp
          from False r deep nstack nvis "1.prems" have bs: "\<not> b" 
            "st' = st2\<lparr>cyclePath := butlast (cyclePath st2), recursionStack := recursionStack st2 - {normalizeFile src}\<rparr>"
            by (auto simp add: dfs_descend st1_def)
          show ?thesis using bs unchanged_pop[OF u[unfolded st1_def] nstack] by simp
        qed
      qed
    qed
  qed
next
  case (2 g st dp)
  then show ?case by (simp add: unchanged_def)
next
  case (3 g dep deps st dp)
  obtain b1 st1 where r: "dfs g dep st dp = (b1, st1)" by (cases "dfs g dep st dp")
  note IH1 = "3.IH"(1)[OF r]
  show ?case
  proof (cases b1)
    case True
    with r "3.prems" have "b" "st' = st1" by auto
    with IH1 True show ?thesis by auto
  next
    case False
    with r "3.prems" have d: "dfs_deps g deps st1 dp = (b, st')" by auto
    have IH2: "if b then (\<exists>ext. found_ext g st1 st' ext \<and> hd ext \<in> set deps) else unchanged st1 st'"
      using "3.IH"(2)[OF r[symmetric] _ d] False by simp
    from IH1 False have u: "unchanged st st1" by simp
    show ?thesis using IH2 u by (auto intro: found_ext_unchanged unchanged_trans split: if_splits)
  qed
qed


text \<open>
  C1. When the entries of three files \<open>A\<close>, \<open>B\<close>, \<open>C\<close> (three different files under the
  detector's path identity) are \<open>A \<mapsto> [B]\<close>, \<open>B \<mapsto> [C]\<close>, \<open>C \<mapsto> [A]\<close>, then
  \<open>detectDeepCycle(A)\<close> returns a result with \<open>hasCycle = true\<close>, \<open>depth = 3\<close> and the cycle
  path \<open>[A, B, C, A]\<close>.
\<close>

theorem detectDeepCycle_three_cycle:
  assumes "g A = Some [B]" and "g B = Some [C]" and "g C = Some [A]"
    and "normalizeFile A \<noteq> normalizeFile B"
    and "normalizeFile B \<noteq> normalizeFile C"
    and "normalizeFile A \<noteq> normalizeFile C"
  shows "\<exists>r. detectDeepCycle P g A = Some r \<and> hasCycle r = True \<and> depth r = 3
             \<and> cycle r = [A, B, C, A]"
  using assms
  by (simp add: detectDeepCycle_def dfs.simps [of g] dependencies_def MAX_DEPTH_def Let_def)

theorem detectDeepCycle_three_cycle_witness:
  "map_option (\<lambda>r. (hasCycle r, depth r, cycle r))
     (detectDeepCycle posix
        [''/p/a.js'' \<mapsto> [''/p/b.js''], ''/p/b.js'' \<mapsto> [''/p/c.js''],
         ''/p/c.js'' \<mapsto> [''/p/a.js'']]
        ''/p/a.js'')
   = Some (True, 3, [''/p/a.js'', ''/p/b.js'', ''/p/c.js'', ''/p/a.js''])"
  using detectDeepCycle_three_cycle
    [of "[''/p/a.js'' \<mapsto> [''/p/b.js''], ''/p/b.js'' \<mapsto> [''/p/c.js''],
          ''/p/c.js'' \<mapsto> [''/p/a.js'']]"
        "''/p/a.js''" "''/p/b.js''" "''/p/c.js''" posix]
  by (auto simp add: eval_strings)

text \<open>
  C2, as the claim states it, fails: with \<open>a \<mapsto> [b]\<close>, \<open>b \<mapsto> [c]\<close>, \<open>c \<mapsto> [b]\<close> the search
  from \<open>a\<close> meets \<open>b\<close> on the recursion stack and the returned sequence is
  \<open>[a, b, c, b]\<close>, whose last element is not the start file.
\<close>

theorem detectDeepCycle_last_not_start:
  "map_option cycle
     (detectDeepCycle posix
        [''/p/a.js'' \<mapsto> [''/p/b.js''], ''/p/b.js'' \<mapsto> [''/p/c.js''],
         ''/p/c.js'' \<mapsto> [''/p/b.js'']]
        ''/p/a.js'')
   = Some [''/p/a.js'', ''/p/b.js'', ''/p/c.js'', ''/p/b.js'']
   \<and> normalizeFile (last [''/p/a.js'', ''/p/b.js'', ''/p/c.js'', ''/p/b.js''])
       \<noteq> normalizeFile ''/p/a.js''"
  by (simp add: detectDeepCycle_def dfs.simps dependencies_def MAX_DEPTH_def Let_def eval_strings)

text \<open>
  C2, amended. Every result of \<open>detectDeepCycle(startFile)\<close> is a walk in the dependency
  graph that starts at \<open>startFile\<close>, and its last element denotes the same file as an
  earlier element of the sequence: the file the search met on its recursion stack, which
  need not be the start file. The depth is the number of edges of the walk.
\<close>

theorem detectDeepCycle_closes_on_earlier_file:
  assumes "detectDeepCycle P g startFile = Some r"
  shows "hd (cycle r) = startFile \<and> walk g (cycle r)
         \<and> normalizeFile (last (cycle r)) \<in> normalizeFile ` set (butlast (cycle r))
         \<and> depth r = length (cycle r) - 1 \<and> hasCycle r"
proof -
  define st0 where "st0 = \<lparr>visited = {}, recursionStack = {}, cyclePath = ([] :: string list)\<rparr>"
  obtain b st where run: "dfs g startFile st0 0 = (b, st)"
    by (cases "dfs g startFile st0 0")
  from assms run have b: "b" and r: "r = \<lparr>hasCycle = True, cycle = cyclePath st,
      depth = length (cyclePath st) - 1, message = cycle_message P (cyclePath st)\<rparr>"
    by (auto simp add: detectDeepCycle_def st0_def split: if_splits)
  from dfs_inv(1)[OF run] b obtain ext where e: "found_ext g st0 st ext" and h: "hd ext = startFile"
    by auto
  from e have "cyclePath st = ext" and "walk g ext"
    and "normalizeFile (last ext) \<in> normalizeFile ` set (butlast ext)"
    by (simp_all add: found_ext_def st0_def)
  with h r show ?thesis by simp
qed

theorem detectDeepCycle_closes_on_earlier_file_witness:
  "detectDeepCycle posix
     [''/p/a.js'' \<mapsto> [''/p/b.js''], ''/p/b.js'' \<mapsto> [''/p/c.js''],
      ''/p/c.js'' \<mapsto> [''/p/b.js'']]
     ''/p/a.js''
   = Some \<lparr>hasCycle = True, cycle = [''/p/a.js'', ''/p/b.js'', ''/p/c.js'', ''/p/b.js''],
            depth = 3,
            message = cycle_message posix [''/p/a.js'', ''/p/b.js'', ''/p/c.js'', ''/p/b.js'']\<rparr>
   \<and> walk [''/p/a.js'' \<mapsto> [''/p/b.js''], ''/p/b.js'' \<mapsto> [''/p/c.js''],
            ''/p/c.js'' \<mapsto> [''/p/b.js'']]
        [''/p/a.js'', ''/p/b.js'', ''/p/c.js'', ''/p/b.js'']"
proof -
  have run: "detectDeepCycle posix
     [''/p/a.js'' \<mapsto> [''/p/b.js''], ''/p/b.js'' \<mapsto> [''/p/c.js''],
      ''/p/c.js'' \<mapsto> [''/p/b.js'']]
     ''/p/a.js''
   = Some \<lparr>hasCycle = True, cycle = [''/p/a.js'', ''/p/b.js'', ''/p/c.js'', ''/p/b.js''],
            depth = 3,
            message = cycle_message posix [''/p/a.js'', ''/p/b.js'', ''/p/c.js'', ''/p/b.js'']\<rparr>"
    by (simp add: detectDeepCycle_def dfs.simps dependencies_def MAX_DEPTH_def Let_def eval_strings)
  from detectDeepCycle_closes_on_earlier_file[OF run] run show ?thesis by simp
qed

text \<open>
  C10, as the claim states it, fails: with \<open>a \<mapsto> [b, a]\<close> and \<open>b \<mapsto> [a]\<close> the dependency
  list of \<open>a\<close> contains \<open>a\<close>, and \<open>detectDeepCycle(a)\<close> returns the result \<open>[a, b, a]\<close>, found
  through \<open>b\<close> before the self-reference is looked at.
\<close>

theorem detectDeepCycle_self_loop_not_null:
  "''/p/a.js'' \<in> set (dependencies
       [''/p/a.js'' \<mapsto> [''/p/b.js'', ''/p/a.js''], ''/p/b.js'' \<mapsto> [''/p/a.js'']] ''/p/a.js'')
   \<and> map_option cycle
         (detectDeepCycle posix
            [''/p/a.js'' \<mapsto> [''/p/b.js'', ''/p/a.js''], ''/p/b.js'' \<mapsto> [''/p/a.js'']]
            ''/p/a.js'')
       = Some [''/p/a.js'', ''/p/b.js'', ''/p/a.js'']"
  by (simp add: detectDeepCycle_def dfs.simps dependencies_def MAX_DEPTH_def Let_def eval_strings)

lemma dfs_deps_append:
  "dfs_deps g (xs @ ys) st d =
     (case dfs_deps g xs st d of (True, st') \<Rightarrow> (True, st') | (False, st') \<Rightarrow> dfs_deps g ys st' d)"
  by (induction xs arbitrary: st) (auto split: prod.splits bool.splits)

text \<open>
  C10, amended. \<open>detectDeepCycle\<close> returns a result only when the path has more than two
  entries (at least two edges); in particular, for a file whose dependency list contains the
  file itself, \<open>detectDeepCycle\<close> on that file returns \<open>null\<close>, although the graph has a cycle
  through it, whenever the search through the dependencies listed before the self-reference
  finds no cycle (so in particular when the file is its own first dependency).
\<close>

theorem detectDeepCycle_more_than_two_entries:
  "(detectDeepCycle P g startFile = Some r \<longrightarrow> length (cycle r) > 2 \<and> depth r \<ge> 2)
   \<and> (g startFile = Some (pre @ dep # post) \<and> normalizeFile dep = normalizeFile startFile
        \<and> fst (dfs_deps g pre
                 \<lparr>visited = {normalizeFile startFile}, recursionStack = {normalizeFile startFile},
                  cyclePath = [startFile]\<rparr> 1) = False
        \<longrightarrow> detectDeepCycle P g startFile = None)"
proof (rule conjI; rule impI)
  assume "detectDeepCycle P g startFile = Some r"
  then show "length (cycle r) > 2 \<and> depth r \<ge> 2"
    by (auto simp add: detectDeepCycle_def split: prod.splits if_splits)
next
  let ?st1 = "\<lparr>visited = {normalizeFile startFile}, recursionStack = {normalizeFile startFile},
                  cyclePath = [startFile]\<rparr>"
  assume h: "g startFile = Some (pre @ dep # post) \<and> normalizeFile dep = normalizeFile startFile
        \<and> fst (dfs_deps g pre ?st1 1) = False"
  obtain st2 where pre: "dfs_deps g pre ?st1 1 = (False, st2)"
    using h by (cases "dfs_deps g pre ?st1 1") auto
  from dfs_inv(2)[OF pre]
  have u: "cyclePath st2 = [startFile]" "recursionStack st2 = {normalizeFile startFile}"
    by (simp_all add: unchanged_def)
  have on: "dfs g dep st2 1 = (True, st2\<lparr>cyclePath := cyclePath st2 @ [dep]\<rparr>)"
    using h u by (intro dfs_on_stack) (simp_all add: MAX_DEPTH_def)
  have "dfs_deps g (pre @ dep # post) ?st1 1 = (True, st2\<lparr>cyclePath := cyclePath st2 @ [dep]\<rparr>)"
    using pre on by (simp add: dfs_deps_append)
  then have "dfs g startFile \<lparr>visited = {}, recursionStack = {}, cyclePath = []\<rparr> 0
      = (True, st2\<lparr>cyclePath := cyclePath st2 @ [dep]\<rparr>)"
    using h by (subst dfs_descend) (simp_all add: MAX_DEPTH_def dependencies_def)
  then show "detectDeepCycle P g startFile = None"
    using u by (simp add: detectDeepCycle_def)
qed

theorem detectDeepCycle_more_than_two_entries_witness:
  "length [''/p/a.js'', ''/p/b.js'', ''/p/a.js''] > 2
   \<and> detectDeepCycle posix
         [''/p/a.js'' \<mapsto> [''/p/b.js'', ''/p/a.js''], ''/p/b.js'' \<mapsto> []] ''/p/a.js'' = None
   \<and> walk [''/p/a.js'' \<mapsto> [''/p/b.js'', ''/p/a.js''], ''/p/b.js'' \<mapsto> []]
        [''/p/a.js'', ''/p/a.js'']"
proof -
  have run: "detectDeepCycle posix
       [''/p/a.js'' \<mapsto> [''/p/b.js'', ''/p/a.js''], ''/p/b.js'' \<mapsto> [''/p/a.js'']] ''/p/a.js''
     = Some \<lparr>hasCycle = True, cycle = [''/p/a.js'', ''/p/b.js'', ''/p/a.js''], depth = 2,
              message = cycle_message posix [''/p/a.js'', ''/p/b.js'', ''/p/a.js'']\<rparr>"
    by (simp add: detectDeepCycle_def dfs.simps dependencies_def MAX_DEPTH_def Let_def eval_strings)
  have first: "length [''/p/a.js'', ''/p/b.js'', ''/p/a.js''] > 2"
    using detectDeepCycle_more_than_two_entries
      [of posix "[''/p/a.js'' \<mapsto> [''/p/b.js'', ''/p/a.js''], ''/p/b.js'' \<mapsto> [''/p/a.js'']]"
          "''/p/a.js''"] run
    by simp
  have before: "fst (dfs_deps [''/p/a.js'' \<mapsto> [''/p/b.js'', ''/p/a.js''], ''/p/b.js'' \<mapsto> []]
        [''/p/b.js'']
        \<lparr>visited = {normalizeFile ''/p/a.js''}, recursionStack = {normalizeFile ''/p/a.js''},
         cyclePath = [''/p/a.js'']\<rparr> 1) = False"
    by (simp add: dfs.simps dependencies_def MAX_DEPTH_def Let_def eval_strings)
  have second: "detectDeepCycle posix
         [''/p/a.js'' \<mapsto> [''/p/b.js'', ''/p/a.js''], ''/p/b.js'' \<mapsto> []] ''/p/a.js'' = None"
    using detectDeepCycle_more_than_two_entries
      [of posix "[''/p/a.js'' \<mapsto> [''/p/b.js'', ''/p/a.js''], ''/p/b.js'' \<mapsto> []]"
          "''/p/a.js''" _ "[''/p/b.js'']" "''/p/a.js''" "[]"] before
    by simp
  from first second show ?thesis by (simp add: dependencies_def)
qed

section \<open>Properties of the regular expression model\<close>

lemma iterate_suffix:
  assumes "\<And>t c t' c'. (t', c') \<in> set (step t c) \<Longrightarrow> \<exists>u. t = u @ t'"
  shows "(t', c') \<in> set (iterate step greedy k t c) \<Longrightarrow> \<exists>u. t = u @ t'"
proof (induction k arbitrary: t c)
  case 0
  then show ?case by simp
next
  case (Suc k)
  from Suc.prems have "(t', c') = (t, c) \<or>
     (\<exists>t1 c1. (t1, c1) \<in> set (step t c) \<and> length t1 < length t \<and> (t', c') \<in> set (iterate step greedy k t1 c1))"
    by (auto simp add: Let_def split: if_splits)
  then show ?case
  proof
    assume "(t', c') = (t, c)" then show ?thesis by simp
  next
    assume "\<exists>t1 c1. (t1, c1) \<in> set (step t c) \<and> length t1 < length t \<and> (t', c') \<in> set (iterate step greedy k t1 c1)"
    then obtain t1 c1 where s: "(t1, c1) \<in> set (step t c)" and i: "(t', c') \<in> set (iterate step greedy k t1 c1)"
      by blast
    from assms[OF s] obtain u1 where "t = u1 @ t1" by blast
    moreover from Suc.IH[OF i] obtain u2 where "t1 = u2 @ t'" by blast
    ultimately have "t = (u1 @ u2) @ t'" by simp
    then show ?thesis by blast
  qed
qed

lemma matches_suffix:
  "(t', c') \<in> set (matches r t c) \<Longrightarrow> \<exists>u. t = u @ t' \<and> min_len r \<le> length u"
proof (induction r arbitrary: t c t' c')
  case (Chars s)
  then have "startsWith t s" "t' = drop (length s) t" by (auto split: if_splits)
  then have "t = s @ t'" by (metis startsWith_def append_take_drop_id)
  then show ?case by auto
next
  case (OneChar cs)
  then show ?case by (cases t) (auto split: if_splits)
next
  case (Seq r1 r2)
  from Seq.prems obtain t1 c1 where a: "(t1, c1) \<in> set (matches r1 t c)" and b: "(t', c') \<in> set (matches r2 t1 c1)"
    by auto
  from Seq.IH(1)[OF a] obtain u1 where "t = u1 @ t1" "min_len r1 \<le> length u1" by blast
  moreover from Seq.IH(2)[OF b] obtain u2 where "t1 = u2 @ t'" "min_len r2 \<le> length u2" by blast
  ultimately have "t = (u1 @ u2) @ t' \<and> min_len (Seq r1 r2) \<le> length (u1 @ u2)" by simp
  then show ?case by blast
next
  case (Alt r1 r2)
  then show ?case by (fastforce simp add: min_def)
next
  case (Star r greedy)
  have "\<exists>u. t = u @ t'"
  proof (rule iterate_suffix[where step = "\<lambda>t' c'. matches r t' c'"])
    show "(t', c') \<in> set (iterate (\<lambda>t' c'. matches r t' c') greedy (length t) t c)"
      using Star.prems by simp
  next
    fix t c t' c' assume "(t', c') \<in> set (matches r t c)"
    from Star.IH[OF this] show "\<exists>u. t = u @ t'" by blast
  qed
  then show ?case by simp
next
  case (Opt r)
  then have "(t', c') = (t, c) \<or> (t', c') \<in> set (matches r t c)" by auto
  with Opt.IH show ?case by fastforce
next
  case (Group n r)
  then obtain c1 where "(t', c1) \<in> set (matches r t c)" by auto
  from Group.IH[OF this] show ?case by simp
next
  case Eol
  then show ?case by (cases t) (auto split: if_splits)
qed

lemma search_bounds:
  "search r t i = Some m \<Longrightarrow>
     i \<le> m_index m \<and> m_index m + length (m_whole m) \<le> i + length t \<and> min_len r \<le> length (m_whole m)"
proof (induction t arbitrary: i)
  case Nil
  show ?case
  proof (cases "matches r [] Map.empty")
    case Nil
    with Nil.prems show ?thesis by simp
  next
    case (Cons a list)
    obtain t' c' where a: "a = (t', c')" by (cases a)
    with Cons have "(t', c') \<in> set (matches r [] Map.empty)" by simp
    from matches_suffix[OF this] have "t' = []" "min_len r = 0" by auto
    with Cons a Nil.prems show ?thesis by auto
  qed
next
  case (Cons x xs)
  show ?case
  proof (cases "matches r (x # xs) Map.empty")
    case Nil
    with Cons.prems have "search r xs (Suc i) = Some m" by simp
    from Cons.IH[OF this] show ?thesis by simp
  next
    case (Cons a list)
    obtain t' c' where a: "a = (t', c')" by (cases a)
    with Cons have "(t', c') \<in> set (matches r (x # xs) Map.empty)" by simp
    from matches_suffix[OF this] obtain u where u: "x # xs = u @ t'" "min_len r \<le> length u" by blast
    then have l: "length (x # xs) = length u + length t'" by (metis length_append)
    from Cons a Cons.prems have m: "m = \<lparr>m_index = i, m_whole = take (length (x # xs) - length t') (x # xs),
                m_groups = map c' [1 ..< Suc (ngroups r)]\<rparr>" by simp
    have "take (length (x # xs) - length t') (x # xs) = u" using u(1) l by simp
    with m u l show ?thesis by simp
  qed
qed

lemma min_len_regex_of: "0 < min_len (regex_of p)"
  by (cases p) (simp_all add: seq_def plus_def)

lemma js_exec_progressive: "progressive js_exec"
  unfolding progressive_def
proof (intro allI impI)
  fix regex source lastIndex m
  assume a: "js_exec regex source lastIndex = Some m"
  then have le: "lastIndex \<le> length source" and s: "search (regex_of regex) (drop lastIndex source) lastIndex = Some m"
    by (auto simp add: js_exec_def split: if_splits)
  from search_bounds[OF s] min_len_regex_of[of regex] le
  show "lastIndex \<le> m_index m \<and> m_whole m \<noteq> [] \<and> m_index m + length (m_whole m) \<le> length source"
    by auto
qed


section \<open>Properties of ImportParser\<close>

lemma progressive_None:
  "progressive E \<Longrightarrow> length text \<le> i \<Longrightarrow> E regex text i = None"
proof (rule ccontr)
  assume p: "progressive E" and l: "length text \<le> i" and "E regex text i \<noteq> None"
  then obtain m where "E regex text i = Some m" by auto
  with p have "i \<le> m_index m" "m_whole m \<noteq> []" "m_index m + length (m_whole m) \<le> length text"
    unfolding progressive_def by blast+
  with l show False by (cases "m_whole m") auto
qed

lemma exec_loop_successive:
  assumes "progressive E"
  shows "Suc (length text) - i \<le> k \<Longrightarrow>
     exec_loop E regex text i acc = Some (foldl (\<lambda>a m. accept m a) acc (successive E regex text k i))"
proof (induction k arbitrary: i acc)
  case 0
  then have "length text \<le> i" by simp
  from progressive_None[OF assms this] show ?case
    by (subst exec_loop.simps) simp
next
  case (Suc k)
  show ?case
  proof (cases "E regex text i")
    case None
    then show ?thesis by (subst exec_loop.simps) simp
  next
    case (Some m)
    with assms have b: "i \<le> m_index m" "m_whole m \<noteq> []"
      unfolding progressive_def by blast+
    then have "i < m_index m + length (m_whole m)" by (cases "m_whole m") auto
    with Suc.prems have "Suc (length text) - (m_index m + length (m_whole m)) \<le> k" by simp
    from Suc.IH[OF this] Some show ?thesis
      by (subst exec_loop.simps) simp
  qed
qed

lemma exec_loop_all_matches:
  "progressive E \<Longrightarrow>
     exec_loop E regex text 0 acc = Some (foldl (\<lambda>a m. accept m a) acc (all_matches E regex text))"
  unfolding all_matches_def by (rule exec_loop_successive) simp_all

lemma extract_each_all_matches:
  "progressive E \<Longrightarrow>
     extract_each E text regexes acc
       = Some (foldl (\<lambda>a m. accept m a) acc (concat (map (\<lambda>regex. all_matches E regex text) regexes)))"
  by (induction regexes arbitrary: acc) (simp_all add: exec_loop_all_matches)

lemma parse_returns: "progressive E \<Longrightarrow> parse E text languageId \<noteq> None"
  by (simp add: parse_def extractImports_def extract_each_all_matches
      split: option.splits table_value.splits)

text \<open>A language tag that names a member the table inherits from \<open>Object.prototype\<close> is not
  answered with the empty list: the function found there has a non-zero \<open>length\<close> and is not
  iterable, so \<open>_extractImports\<close> throws.\<close>

lemma parse_inherited_property: "parse E src ''constructor'' = Some (Inl TypeError)"
  by (simp add: parse_def regexMap_def IMPORT_PATTERNS_def inherited_def)

lemma processFileForGraph_returns:
  "progressive E \<Longrightarrow> processFileForGraph E P fs f d \<noteq> None"
  by (auto simp add: processFileForGraph_def parse_returns split: sum.splits option.splits)

lemma processFiles_returns:
  "progressive E \<Longrightarrow> processFiles E P fs fs' d \<noteq> None"
proof (induction fs' arbitrary: d)
  case Nil then show ?case by simp
next
  case (Cons f fs')
  then show ?case using processFileForGraph_returns[of E P fs f d] by (auto split: option.splits)
qed


lemma digit_char_value: "d < 10 \<Longrightarrow> of_char (digit_char d) = (48 + d :: nat)"
  by (simp add: digit_char_def)

lemma digit_char_not_colon: "d < 10 \<Longrightarrow> digit_char d \<noteq> CHR '':''"
proof
  assume d: "d < 10" and "digit_char d = CHR '':''"
  then have "(of_char (digit_char d) :: nat) = of_char (CHR '':'')" by simp
  with d show False by (simp add: digit_char_value)
qed

lemma decimal_no_colon: "CHR '':'' \<notin> set (decimal n)"
proof (induction n rule: decimal.induct)
  case (1 n)
  show ?case
  proof (cases "n < 10")
    case True
    then show ?thesis using digit_char_not_colon[of n] by (subst decimal.simps) auto
  next
    case False
    have "n mod 10 < 10" by simp
    with False "1.IH" digit_char_not_colon[of "n mod 10"] show ?thesis
      by (subst decimal.simps) auto
  qed
qed

lemma undecimal_decimal: "undecimal (decimal n) = n"
proof (induction n rule: decimal.induct)
  case (1 n)
  show ?case
  proof (cases "n < 10")
    case True
    then show ?thesis by (subst decimal.simps) (simp add: undecimal_def digit_char_value)
  next
    case False
    have m: "n mod 10 < 10" by simp
    from False "1.IH" have "undecimal (decimal (n div 10)) = n div 10" by simp
    then have "undecimal (decimal (n div 10) @ [digit_char (n mod 10)]) = 10 * (n div 10) + n mod 10"
      using digit_char_value[OF m] by (simp add: undecimal_def)
    with False show ?thesis by (subst decimal.simps) simp
  qed
qed

lemma decimal_inj: "decimal n = decimal m \<Longrightarrow> n = m"
  by (metis undecimal_decimal)

lemma takeWhile_colon: "CHR '':'' \<notin> set xs \<Longrightarrow> takeWhile (\<lambda>c. c \<noteq> CHR '':'') (xs @ CHR '':'' # p) = xs"
  by (induction xs) auto

lemma split_at_colon:
  assumes "xs @ CHR '':'' # p = ys @ CHR '':'' # q" and "CHR '':'' \<notin> set xs" and "CHR '':'' \<notin> set ys"
  shows "xs = ys \<and> p = q"
proof -
  have "takeWhile (\<lambda>c. c \<noteq> CHR '':'') (xs @ CHR '':'' # p) = xs"
    using assms(2) by (rule takeWhile_colon)
  moreover have "takeWhile (\<lambda>c. c \<noteq> CHR '':'') (ys @ CHR '':'' # q) = ys"
    using assms(3) by (rule takeWhile_colon)
  ultimately have "xs = ys" using assms(1) by simp
  with assms(1) show ?thesis by simp
qed

lemma matchKey_inj:
  assumes "matchKey i p = matchKey j q"
  shows "i = j \<and> p = q"
proof -
  from assms have "decimal i @ CHR '':'' # p = decimal j @ CHR '':'' # q"
    by (simp add: matchKey_def)
  from split_at_colon[OF this decimal_no_colon decimal_no_colon]
  have "decimal i = decimal j" and "p = q" by simp_all
  then show ?thesis by (simp add: decimal_inj)
qed

lemma successive_increasing:
  assumes "progressive E"
  shows "sorted_wrt (<) (map m_index (successive E regex source k i))
         \<and> (\<forall>m \<in> set (successive E regex source k i). i \<le> m_index m)"
proof (induction k arbitrary: i)
  case 0
  then show ?case by simp
next
  case (Suc k)
  show ?case
  proof (cases "E regex source i")
    case None
    then show ?thesis by simp
  next
    case (Some m)
    with assms have b: "i \<le> m_index m" "m_whole m \<noteq> []"
      unfolding progressive_def by blast+
    then have lt: "Suc 0 \<le> length (m_whole m)" by (cases "m_whole m") simp_all
    have "\<forall>x \<in> set (successive E regex source k (m_index m + length (m_whole m))). m_index m < m_index x"
    proof
      fix x assume "x \<in> set (successive E regex source k (m_index m + length (m_whole m)))"
      with Suc.IH[of "m_index m + length (m_whole m)"]
      have "m_index m + length (m_whole m) \<le> m_index x" by blast
      with lt show "m_index m < m_index x" by linarith
    qed
    with Suc.IH[of "m_index m + length (m_whole m)"] b Some show ?thesis
      by auto
  qed
qed

lemma accept_cases:
  "accept m acc = acc
   \<or> (\<exists>p. importPath_of m = Some p \<and> truthy p \<and> matchKey (m_index m) p \<notin> ex_seen acc
          \<and> accept m acc = \<lparr>ex_imports = ex_imports acc @ [record_of m p],
                               ex_seen = insert (matchKey (m_index m) p) (ex_seen acc)\<rparr>)"
  by (auto simp add: accept_def split: option.splits)

lemma accept_seen:
  "importPath_of m = Some p \<Longrightarrow> truthy p \<Longrightarrow> matchKey (m_index m) p \<in> ex_seen (accept m acc)"
  by (auto simp add: accept_def)

lemma key_of_record_of: "key_of (record_of m p) = matchKey (m_index m) p"
  by (simp add: key_of_def record_of_def)

lemma accept_run:
  assumes inv: "ex_seen acc = key_of ` set (ex_imports acc)"
  shows "\<exists>seg. ex_imports (foldl (\<lambda>a m. accept m a) acc ms) = ex_imports acc @ seg
     \<and> ex_seen (foldl (\<lambda>a m. accept m a) acc ms) = key_of ` set (ex_imports acc @ seg)
     \<and> (\<forall>r \<in> set seg. \<exists>m \<in> set ms. importPath_of m = Some (imp_path r) \<and> truthy (imp_path r)
            \<and> r = record_of m (imp_path r))
     \<and> (sorted_wrt (<) (map m_index ms) \<longrightarrow> sorted_wrt (<) (map imp_index seg))
     \<and> (distinct (map key_of (ex_imports acc)) \<longrightarrow> distinct (map key_of (ex_imports acc @ seg)))
     \<and> (\<forall>m \<in> set ms. \<forall>p. importPath_of m = Some p \<and> truthy p
            \<longrightarrow> matchKey (m_index m) p \<in> key_of ` set (ex_imports acc @ seg))"
proof (induction ms rule: rev_induct)
  case Nil
  show ?case using inv by (intro exI[of _ "[]"]) simp
next
  case (snoc m ms)
  let ?a = "foldl (\<lambda>a m. accept m a) acc ms"
  from snoc obtain seg where
    imp: "ex_imports ?a = ex_imports acc @ seg"
    and seen: "ex_seen ?a = key_of ` set (ex_imports acc @ seg)"
    and sound: "\<forall>r \<in> set seg. \<exists>m \<in> set ms. importPath_of m = Some (imp_path r) \<and> truthy (imp_path r)
            \<and> r = record_of m (imp_path r)"
    and srt: "sorted_wrt (<) (map m_index ms) \<longrightarrow> sorted_wrt (<) (map imp_index seg)"
    and dst: "distinct (map key_of (ex_imports acc)) \<longrightarrow> distinct (map key_of (ex_imports acc @ seg))"
    and cmpl: "\<forall>m \<in> set ms. \<forall>p. importPath_of m = Some p \<and> truthy p
            \<longrightarrow> matchKey (m_index m) p \<in> key_of ` set (ex_imports acc @ seg)"
    by blast
  have fold: "foldl (\<lambda>a m. accept m a) acc (ms @ [m]) = accept m ?a" by simp
  from accept_cases[of m ?a] show ?case
  proof
    assume same: "accept m ?a = ?a"
    have "\<forall>p. importPath_of m = Some p \<and> truthy p
            \<longrightarrow> matchKey (m_index m) p \<in> key_of ` set (ex_imports acc @ seg)"
      using accept_seen[of m _ ?a] same seen by auto
    with imp seen sound srt dst cmpl same show ?thesis
      unfolding fold
      by (intro exI[of _ seg]) (auto simp add: sorted_wrt_append)
  next
    assume "\<exists>p. importPath_of m = Some p \<and> truthy p \<and> matchKey (m_index m) p \<notin> ex_seen ?a
          \<and> accept m ?a = \<lparr>ex_imports = ex_imports ?a @ [record_of m p],
                               ex_seen = insert (matchKey (m_index m) p) (ex_seen ?a)\<rparr>"
    then obtain p where p: "importPath_of m = Some p" "truthy p"
      and new: "matchKey (m_index m) p \<notin> ex_seen ?a"
      and acc': "accept m ?a = \<lparr>ex_imports = ex_imports ?a @ [record_of m p],
                               ex_seen = insert (matchKey (m_index m) p) (ex_seen ?a)\<rparr>"
      by blast
    let ?seg = "seg @ [record_of m p]"
    have 1: "ex_imports (accept m ?a) = ex_imports acc @ ?seg" using acc' imp by simp
    have 2: "ex_seen (accept m ?a) = key_of ` set (ex_imports acc @ ?seg)"
      using acc' seen by (simp add: key_of_record_of)
    have 3: "\<forall>r \<in> set ?seg. \<exists>m' \<in> set (ms @ [m]). importPath_of m' = Some (imp_path r) \<and> truthy (imp_path r)
            \<and> r = record_of m' (imp_path r)"
    proof
      fix r assume "r \<in> set ?seg"
      then consider "r \<in> set seg" | "r = record_of m p" by auto
      then show "\<exists>m' \<in> set (ms @ [m]). importPath_of m' = Some (imp_path r) \<and> truthy (imp_path r)
            \<and> r = record_of m' (imp_path r)"
      proof cases
        case 1
        with sound show ?thesis by auto
      next
        case 2
        then have "imp_path r = p" by (simp add: record_of_def)
        with 2 p show ?thesis by auto
      qed
    qed
    have 4: "sorted_wrt (<) (map m_index (ms @ [m])) \<longrightarrow> sorted_wrt (<) (map imp_index ?seg)"
    proof
      assume s: "sorted_wrt (<) (map m_index (ms @ [m]))"
      then have sms: "sorted_wrt (<) (map m_index ms)" and lt: "\<forall>m' \<in> set ms. m_index m' < m_index m"
        by (auto simp add: sorted_wrt_append)
      have "\<forall>r \<in> set seg. imp_index r < m_index m"
      proof
        fix r assume "r \<in> set seg"
        with sound obtain m' where "m' \<in> set ms" "r = record_of m' (imp_path r)" by blast
        then have "imp_index r = m_index m'" by (metis import_info.select_convs(2) record_of_def)
        with lt \<open>m' \<in> set ms\<close> show "imp_index r < m_index m" by simp
      qed
      with srt sms show "sorted_wrt (<) (map imp_index ?seg)"
        by (simp add: sorted_wrt_append record_of_def)
    qed
    have 5: "distinct (map key_of (ex_imports acc)) \<longrightarrow> distinct (map key_of (ex_imports acc @ ?seg))"
      using dst new seen by (auto simp add: key_of_record_of)
    have 6: "\<forall>m' \<in> set (ms @ [m]). \<forall>q. importPath_of m' = Some q \<and> truthy q
            \<longrightarrow> matchKey (m_index m') q \<in> key_of ` set (ex_imports acc @ ?seg)"
    proof (intro ballI allI impI)
      fix m' q assume m': "m' \<in> set (ms @ [m])" and q: "importPath_of m' = Some q \<and> truthy q"
      show "matchKey (m_index m') q \<in> key_of ` set (ex_imports acc @ ?seg)"
      proof (cases "m' \<in> set ms")
        case True
        with cmpl q have "matchKey (m_index m') q \<in> key_of ` set (ex_imports acc @ seg)" by blast
        then show ?thesis by auto
      next
        case False
        with m' have "m' = m" by simp
        with q p have "q = p" by simp
        with \<open>m' = m\<close> show ?thesis by (simp add: key_of_record_of)
      qed
    qed
    from 1 2 3 4 5 6 show ?thesis unfolding fold by blast
  qed
qed

lemma extract_run:
  assumes prog: "progressive E"
  shows "ex_seen acc = key_of ` set (ex_imports acc) \<Longrightarrow> distinct (map key_of (ex_imports acc)) \<Longrightarrow>
    \<exists>segs. length segs = length rs
     \<and> ex_imports (foldl (\<lambda>a m. accept m a) acc (concat (map (\<lambda>regex. all_matches E regex source) rs)))
          = ex_imports acc @ concat segs
     \<and> (\<forall>k < length rs. sorted_wrt (<) (map imp_index (segs ! k))
            \<and> (\<forall>r \<in> set (segs ! k). \<exists>m \<in> set (all_matches E (rs ! k) source).
                   importPath_of m = Some (imp_path r) \<and> truthy (imp_path r)
                   \<and> r = record_of m (imp_path r)))
     \<and> distinct (map key_of (ex_imports acc @ concat segs))
     \<and> (\<forall>regex \<in> set rs. \<forall>m \<in> set (all_matches E regex source). \<forall>p.
            importPath_of m = Some p \<and> truthy p
            \<longrightarrow> matchKey (m_index m) p \<in> key_of ` set (ex_imports acc @ concat segs))"
proof (induction rs arbitrary: acc)
  case Nil
  then show ?case by (intro exI[of _ "[]"]) simp
next
  case (Cons rx rs)
  let ?ms = "all_matches E rx source"
  let ?a1 = "foldl (\<lambda>a m. accept m a) acc ?ms"
  have inc: "sorted_wrt (<) (map m_index ?ms)"
    unfolding all_matches_def using successive_increasing[OF prog] by blast
  from accept_run[OF Cons.prems(1), of ?ms] inc Cons.prems(2) obtain seg where
    imp: "ex_imports ?a1 = ex_imports acc @ seg"
    and seen: "ex_seen ?a1 = key_of ` set (ex_imports acc @ seg)"
    and sound: "\<forall>r \<in> set seg. \<exists>m \<in> set ?ms. importPath_of m = Some (imp_path r) \<and> truthy (imp_path r)
            \<and> r = record_of m (imp_path r)"
    and srt: "sorted_wrt (<) (map imp_index seg)"
    and dst: "distinct (map key_of (ex_imports acc @ seg))"
    and cmpl: "\<forall>m \<in> set ?ms. \<forall>p. importPath_of m = Some p \<and> truthy p
            \<longrightarrow> matchKey (m_index m) p \<in> key_of ` set (ex_imports acc @ seg)"
    by blast
  have inv1: "ex_seen ?a1 = key_of ` set (ex_imports ?a1)" using imp seen by simp
  have dst1: "distinct (map key_of (ex_imports ?a1))" using imp dst by simp
  from Cons.IH[OF inv1 dst1] obtain segs where
    len: "length segs = length rs"
    and imps: "ex_imports (foldl (\<lambda>a m. accept m a) ?a1 (concat (map (\<lambda>regex. all_matches E regex source) rs)))
          = ex_imports ?a1 @ concat segs"
    and each: "\<forall>k < length rs. sorted_wrt (<) (map imp_index (segs ! k))
            \<and> (\<forall>r \<in> set (segs ! k). \<exists>m \<in> set (all_matches E (rs ! k) source).
                   importPath_of m = Some (imp_path r) \<and> truthy (imp_path r)
                   \<and> r = record_of m (imp_path r))"
    and dsts: "distinct (map key_of (ex_imports ?a1 @ concat segs))"
    and cmpls: "\<forall>regex \<in> set rs. \<forall>m \<in> set (all_matches E regex source). \<forall>p.
            importPath_of m = Some p \<and> truthy p
            \<longrightarrow> matchKey (m_index m) p \<in> key_of ` set (ex_imports ?a1 @ concat segs)"
    by blast
  let ?segs = "seg # segs"
  have 1: "length ?segs = length (rx # rs)" using len by simp
  have 2: "ex_imports (foldl (\<lambda>a m. accept m a) acc (concat (map (\<lambda>regex. all_matches E regex source) (rx # rs))))
          = ex_imports acc @ concat ?segs"
    using imps imp by simp
  have 3: "\<forall>k < length (rx # rs). sorted_wrt (<) (map imp_index (?segs ! k))
            \<and> (\<forall>r \<in> set (?segs ! k). \<exists>m \<in> set (all_matches E ((rx # rs) ! k) source).
                   importPath_of m = Some (imp_path r) \<and> truthy (imp_path r)
                   \<and> r = record_of m (imp_path r))"
  proof (intro allI impI)
    fix k assume "k < length (rx # rs)"
    then show "sorted_wrt (<) (map imp_index (?segs ! k))
            \<and> (\<forall>r \<in> set (?segs ! k). \<exists>m \<in> set (all_matches E ((rx # rs) ! k) source).
                   importPath_of m = Some (imp_path r) \<and> truthy (imp_path r)
                   \<and> r = record_of m (imp_path r))"
      using srt sound each by (cases k) simp_all
  qed
  have 4: "distinct (map key_of (ex_imports acc @ concat ?segs))" using dsts imp by simp
  have 5: "\<forall>regex \<in> set (rx # rs). \<forall>m \<in> set (all_matches E regex source). \<forall>p.
            importPath_of m = Some p \<and> truthy p
            \<longrightarrow> matchKey (m_index m) p \<in> key_of ` set (ex_imports acc @ concat ?segs)"
  proof (intro ballI allI impI)
    fix regex m p
    assume r: "regex \<in> set (rx # rs)" and m: "m \<in> set (all_matches E regex source)"
      and p: "importPath_of m = Some p \<and> truthy p"
    show "matchKey (m_index m) p \<in> key_of ` set (ex_imports acc @ concat ?segs)"
    proof (cases "regex = rx")
      case True
      with m p cmpl have "matchKey (m_index m) p \<in> key_of ` set (ex_imports acc @ seg)" by blast
      then show ?thesis by auto
    next
      case False
      with r have "regex \<in> set rs" by simp
      with m p cmpls have "matchKey (m_index m) p \<in> key_of ` set (ex_imports ?a1 @ concat segs)" by blast
      then show ?thesis using imp by simp
    qed
  qed
  from 1 2 3 4 5 show ?case by blast
qed

lemma distinct_pairs_of_keys:
  assumes "distinct (map key_of recs)"
  shows "distinct (map (\<lambda>r. (imp_index r, imp_path r)) recs)"
proof -
  have "key_of = (\<lambda>(i, p). matchKey i p) \<circ> (\<lambda>r. (imp_index r, imp_path r))"
    by (simp add: fun_eq_iff key_of_def)
  with assms have "distinct (map ((\<lambda>(i, p). matchKey i p) \<circ> (\<lambda>r. (imp_index r, imp_path r))) recs)"
    by simp
  then have "distinct (map (\<lambda>(i, p). matchKey i p) (map (\<lambda>r. (imp_index r, imp_path r)) recs))"
    by (simp only: map_map)
  then show ?thesis by (simp only: distinct_map)
qed

text \<open>
  C6, as the claim states it, fails: the records are not in document order. For the
  JavaScript text \<^verbatim>\<open>require('./a'); import x from './b'\<close> the \<open>import\<close> at index 16 comes
  first and the \<open>require\<close> at index 0 second, since the expression for \<open>import ... from\<close>
  comes before the one for \<open>require\<close> in the table and each expression is run over the
  whole text in turn. The source does not sort.
\<close>

theorem parse_not_in_document_order:
  "parse js_exec (''require('' @ [CHR 0x27] @ ''./a'' @ [CHR 0x27] @ ''); import x from '' @ [CHR 0x27] @ ''./b'' @ [CHR 0x27])
      ''javascript''
     = Some (Inr [
         \<lparr>imp_path = ''./b'', imp_index = 16, imp_length = 19,
             imp_fullMatch = ''import x from '' @ [CHR 0x27] @ ''./b'' @ [CHR 0x27]\<rparr>,
         \<lparr>imp_path = ''./a'', imp_index = 0, imp_length = 14,
             imp_fullMatch = ''require('' @ [CHR 0x27] @ ''./a'' @ [CHR 0x27] @ '')''\<rparr>])
   \<and> \<not> sorted (map imp_index [
         \<lparr>imp_path = ''./b'', imp_index = 16, imp_length = 19,
             imp_fullMatch = ''import x from '' @ [CHR 0x27] @ ''./b'' @ [CHR 0x27]\<rparr>,
         \<lparr>imp_path = ''./a'', imp_index = 0, imp_length = 14,
             imp_fullMatch = ''require('' @ [CHR 0x27] @ ''./a'' @ [CHR 0x27] @ '')''\<rparr>])"
proof -
  have "parse js_exec (''require('' @ [CHR 0x27] @ ''./a'' @ [CHR 0x27] @ ''); import x from '' @ [CHR 0x27] @ ''./b'' @ [CHR 0x27])
      ''javascript''
     = Some (Inr [
         \<lparr>imp_path = ''./b'', imp_index = 16, imp_length = 19,
             imp_fullMatch = ''import x from '' @ [CHR 0x27] @ ''./b'' @ [CHR 0x27]\<rparr>,
         \<lparr>imp_path = ''./a'', imp_index = 0, imp_length = 14,
             imp_fullMatch = ''require('' @ [CHR 0x27] @ ''./a'' @ [CHR 0x27] @ '')''\<rparr>])"
    by code_simp
  then show ?thesis by simp
qed

text \<open>
  C6, amended. For every source text and every language tag of the table, \<open>parse\<close> returns
  a list of records, and the list is the concatenation of one segment for each
  expression of the tag, in the order of the table. Within a segment the records are in
  document order (strictly increasing index), and each is the record of a match of that
  expression whose extracted path is truthy. No two records of the list have the same
  (index, path) pair, and every match with a truthy path has a record with its index and
  path: a match whose pair an earlier match had is suppressed. A language tag that is no
  property of the table yields the empty list, not an error. This holds for every engine
  whose matches are not empty and lie at or after \<open>lastIndex\<close>, as those of the expressions
  of the table do.
\<close>

theorem parse_supported_language:
  "(IMPORT_PATTERNS languageId = Some regexes \<and> progressive E \<longrightarrow>
      (\<exists>segs. parse E source languageId = Some (Inr (concat segs))
         \<and> length segs = length regexes
         \<and> (\<forall>k < length regexes. sorted_wrt (<) (map imp_index (segs ! k))
              \<and> (\<forall>r \<in> set (segs ! k). \<exists>m \<in> set (all_matches E (regexes ! k) source).
                     importPath_of m = Some (imp_path r) \<and> truthy (imp_path r)
                     \<and> r = record_of m (imp_path r)))
         \<and> distinct (map (\<lambda>r. (imp_index r, imp_path r)) (concat segs))
         \<and> (\<forall>regex \<in> set regexes. \<forall>m \<in> set (all_matches E regex source). \<forall>p.
                importPath_of m = Some p \<and> truthy p
                \<longrightarrow> (\<exists>r \<in> set (concat segs). imp_index r = m_index m \<and> imp_path r = p))))
   \<and> (regexMap languageId = None \<longrightarrow> parse E source languageId = Some (Inr []))"
proof (intro conjI impI)
  assume "regexMap languageId = None"
  then show "parse E source languageId = Some (Inr [])" by (simp add: parse_def)
next
  assume a: "IMPORT_PATTERNS languageId = Some regexes \<and> progressive E"
  then have tbl: "regexMap languageId = Some (RegexList regexes)" and prog: "progressive E"
    by (simp_all add: regexMap_def)
  let ?acc = "\<lparr>ex_imports = [], ex_seen = {}\<rparr>"
  from extract_run[OF prog, of ?acc regexes source] obtain segs where
    len: "length segs = length regexes"
    and imps: "ex_imports (foldl (\<lambda>a m. accept m a) ?acc (concat (map (\<lambda>regex. all_matches E regex source) regexes)))
          = concat segs"
    and each: "\<forall>k < length regexes. sorted_wrt (<) (map imp_index (segs ! k))
            \<and> (\<forall>r \<in> set (segs ! k). \<exists>m \<in> set (all_matches E (regexes ! k) source).
                   importPath_of m = Some (imp_path r) \<and> truthy (imp_path r)
                   \<and> r = record_of m (imp_path r))"
    and dst: "distinct (map key_of (concat segs))"
    and cmpl: "\<forall>regex \<in> set regexes. \<forall>m \<in> set (all_matches E regex source). \<forall>p.
            importPath_of m = Some p \<and> truthy p
            \<longrightarrow> matchKey (m_index m) p \<in> key_of ` set (concat segs)"
    by auto
  have ret: "parse E source languageId = Some (Inr (concat segs))"
  proof (cases "regexes = []")
    case True
    with len tbl show ?thesis by (simp add: parse_def)
  next
    case False
    with tbl imps show ?thesis
      by (simp add: parse_def extractImports_def extract_each_all_matches[OF prog])
  qed
  have cm: "\<forall>regex \<in> set regexes. \<forall>m \<in> set (all_matches E regex source). \<forall>p.
                importPath_of m = Some p \<and> truthy p
                \<longrightarrow> (\<exists>r \<in> set (concat segs). imp_index r = m_index m \<and> imp_path r = p)"
  proof (intro ballI allI impI)
    fix regex m p
    assume "regex \<in> set regexes" "m \<in> set (all_matches E regex source)" "importPath_of m = Some p \<and> truthy p"
    with cmpl have "matchKey (m_index m) p \<in> key_of ` set (concat segs)" by blast
    then obtain r where r: "r \<in> set (concat segs)" "matchKey (m_index m) p = key_of r" by blast
    from matchKey_inj[OF r(2)[unfolded key_of_def]] r(1)
    show "\<exists>r \<in> set (concat segs). imp_index r = m_index m \<and> imp_path r = p" by auto
  qed
  from ret len each distinct_pairs_of_keys[OF dst] cm
  show "\<exists>segs. parse E source languageId = Some (Inr (concat segs))
         \<and> length segs = length regexes
         \<and> (\<forall>k < length regexes. sorted_wrt (<) (map imp_index (segs ! k))
              \<and> (\<forall>r \<in> set (segs ! k). \<exists>m \<in> set (all_matches E (regexes ! k) source).
                     importPath_of m = Some (imp_path r) \<and> truthy (imp_path r)
                     \<and> r = record_of m (imp_path r)))
         \<and> distinct (map (\<lambda>r. (imp_index r, imp_path r)) (concat segs))
         \<and> (\<forall>regex \<in> set regexes. \<forall>m \<in> set (all_matches E regex source). \<forall>p.
                importPath_of m = Some p \<and> truthy p
                \<longrightarrow> (\<exists>r \<in> set (concat segs). imp_index r = m_index m \<and> imp_path r = p))"
    by blast
qed


theorem parse_supported_language_witness:
  "parse js_exec (''import '' @ [CHR 0x27] @ ''a'' @ [CHR 0x27] @ ''; export * from '' @ [CHR 0x27] @ ''a'' @ [CHR 0x27])
      ''javascript''
     = Some (Inr [
         \<lparr>imp_path = ''a'', imp_index = 0, imp_length = 29,
             imp_fullMatch = ''import '' @ [CHR 0x27] @ ''a'' @ [CHR 0x27] @ ''; export * from '' @ [CHR 0x27] @ ''a'' @ [CHR 0x27]\<rparr>,
         \<lparr>imp_path = ''a'', imp_index = 12, imp_length = 17,
             imp_fullMatch = ''export * from '' @ [CHR 0x27] @ ''a'' @ [CHR 0x27]\<rparr>])
   \<and> distinct (map (\<lambda>r. (imp_index r, imp_path r)) [
         \<lparr>imp_path = ''a'', imp_index = 0, imp_length = 29,
             imp_fullMatch = ''import '' @ [CHR 0x27] @ ''a'' @ [CHR 0x27] @ ''; export * from '' @ [CHR 0x27] @ ''a'' @ [CHR 0x27]\<rparr>,
         \<lparr>imp_path = ''a'', imp_index = 12, imp_length = 17,
             imp_fullMatch = ''export * from '' @ [CHR 0x27] @ ''a'' @ [CHR 0x27]\<rparr>])
   \<and> map (\<lambda>m. (m_index m, importPath_of m))
         (all_matches js_exec ImportBare (''import '' @ [CHR 0x27] @ ''a'' @ [CHR 0x27] @ ''; export * from '' @ [CHR 0x27] @ ''a'' @ [CHR 0x27]))
       = [(0, Some ''a'')]
   \<and> parse js_exec (''import '' @ [CHR 0x27] @ ''a'' @ [CHR 0x27] @ ''; export * from '' @ [CHR 0x27] @ ''a'' @ [CHR 0x27])
      ''cobol'' = Some (Inr [])"
proof -
  let ?t = "''import '' @ [CHR 0x27] @ ''a'' @ [CHR 0x27] @ ''; export * from '' @ [CHR 0x27] @ ''a'' @ [CHR 0x27]"
  have run: "parse js_exec ?t ''javascript''
     = Some (Inr [
         \<lparr>imp_path = ''a'', imp_index = 0, imp_length = 29,
             imp_fullMatch = ''import '' @ [CHR 0x27] @ ''a'' @ [CHR 0x27] @ ''; export * from '' @ [CHR 0x27] @ ''a'' @ [CHR 0x27]\<rparr>,
         \<lparr>imp_path = ''a'', imp_index = 12, imp_length = 17,
             imp_fullMatch = ''export * from '' @ [CHR 0x27] @ ''a'' @ [CHR 0x27]\<rparr>])"
    by code_simp
  have bare: "map (\<lambda>m. (m_index m, importPath_of m)) (all_matches js_exec ImportBare ?t)
       = [(0, Some ''a'')]"
    by code_simp
  have tbl: "IMPORT_PATTERNS ''javascript'' = Some [ImportFrom, ImportBare, ExportFrom, Require]"
    by (simp add: IMPORT_PATTERNS_def)
  from parse_supported_language
    [of "''javascript''" "[ImportFrom, ImportBare, ExportFrom, Require]" js_exec ?t]
    tbl js_exec_progressive
  obtain segs where "parse js_exec ?t ''javascript'' = Some (Inr (concat segs))"
    and "distinct (map (\<lambda>r. (imp_index r, imp_path r)) (concat segs))"
    by blast
  with run have d: "distinct (map (\<lambda>r. (imp_index r, imp_path r)) [
         \<lparr>imp_path = ''a'', imp_index = 0, imp_length = 29,
             imp_fullMatch = ''import '' @ [CHR 0x27] @ ''a'' @ [CHR 0x27] @ ''; export * from '' @ [CHR 0x27] @ ''a'' @ [CHR 0x27]\<rparr>,
         \<lparr>imp_path = ''a'', imp_index = 12, imp_length = 17,
             imp_fullMatch = ''export * from '' @ [CHR 0x27] @ ''a'' @ [CHR 0x27]\<rparr>])"
    by simp
  have none: "regexMap ''cobol'' = None"
    by (simp add: regexMap_def IMPORT_PATTERNS_def inherited_def)
  from parse_supported_language[of "''cobol''" "[]" js_exec ?t] none
  have unsupported: "parse js_exec ?t ''cobol'' = Some (Inr [])"
    by blast
  from run d bare unsupported show ?thesis by blast
qed

section \<open>Properties of buildGraph\<close>

lemma processFileForGraph_cases:
  "processFileForGraph E P fs f d = None \<or> processFileForGraph E P fs f d = Some d
   \<or> (\<exists>st content imps. statSync fs f = Inr st \<and> readFileSync fs f = Inr content
         \<and> parse E content (getLanguageId P f) = Some (Inr imps)
         \<and> \<not> cacheValid (fileTimestamps d f) (st_mtimeMs st)
         \<and> existsSync fs f \<and> \<not> st_size st > MAX_FILE_SIZE
         \<and> processFileForGraph E P fs f d =
             Some (d\<lparr>dependencyGraph := (dependencyGraph d)(f \<mapsto> resolveImports P fs (dirname P f) imps),
                      fileTimestamps := (fileTimestamps d)(f \<mapsto> st_mtimeMs st)\<rparr>))"
  by (auto simp add: processFileForGraph_def split: sum.splits option.splits)

lemma processFileForGraph_fixed_after:
  assumes "processFileForGraph E P fs f d = Some d'"
  shows "processFileForGraph E P fs f d' = Some d'"
proof -
  from processFileForGraph_cases[of E P fs f d] assms
  consider (same) "d' = d"
    | (upd) st content imps where "statSync fs f = Inr st" "readFileSync fs f = Inr content"
        "parse E content (getLanguageId P f) = Some (Inr imps)" "existsSync fs f" "\<not> st_size st > MAX_FILE_SIZE"
        "d' = d\<lparr>dependencyGraph := (dependencyGraph d)(f \<mapsto> resolveImports P fs (dirname P f) imps),
                      fileTimestamps := (fileTimestamps d)(f \<mapsto> st_mtimeMs st)\<rparr>"
    by auto
  then show ?thesis
  proof cases
    case same
    with assms show ?thesis by simp
  next
    case upd
    then show ?thesis
      by (simp add: processFileForGraph_def cacheValid_def)
  qed
qed

lemma processFileForGraph_fixed_other:
  assumes fx: "processFileForGraph E P fs f d = Some d"
    and g: "processFileForGraph E P fs g d = Some d'"
  shows "processFileForGraph E P fs f d' = Some d'"
proof (cases "g = f")
  case True
  with g show ?thesis by (simp add: processFileForGraph_fixed_after)
next
  case False
  from processFileForGraph_cases[of E P fs g d] g
  consider (same) "d' = d"
    | (upd) G T where
        "d' = d\<lparr>dependencyGraph := (dependencyGraph d)(g \<mapsto> G),
                      fileTimestamps := (fileTimestamps d)(g \<mapsto> T)\<rparr>"
    by auto
  then show ?thesis
  proof cases
    case same
    with fx show ?thesis by simp
  next
    case upd
    from processFileForGraph_cases[of E P fs f d] fx
    consider (skip) "\<not> existsSync fs f \<or> (\<exists>e. statSync fs f = Inl e)
          \<or> (\<exists>st. statSync fs f = Inr st \<and> (st_size st > MAX_FILE_SIZE \<or> cacheValid (fileTimestamps d f) (st_mtimeMs st)
                \<or> (\<exists>e. readFileSync fs f = Inl e)
                \<or> (\<exists>content e. readFileSync fs f = Inr content \<and> parse E content (getLanguageId P f) = Some (Inl e))))"
      | (re) st content imps where "statSync fs f = Inr st" "readFileSync fs f = Inr content"
         "parse E content (getLanguageId P f) = Some (Inr imps)"
         "d\<lparr>dependencyGraph := (dependencyGraph d)(f \<mapsto> resolveImports P fs (dirname P f) imps),
                      fileTimestamps := (fileTimestamps d)(f \<mapsto> st_mtimeMs st)\<rparr> = d"
         "existsSync fs f" "\<not> st_size st > MAX_FILE_SIZE"
      by (auto simp add: processFileForGraph_def split: sum.splits option.splits if_splits)
    then show ?thesis
    proof cases
      case skip
      then show ?thesis using False upd
        by (auto simp add: processFileForGraph_def split: sum.splits option.splits)
    next
      case re
      from re(4) have gf: "dependencyGraph d f = Some (resolveImports P fs (dirname P f) imps)"
        and tf: "fileTimestamps d f = Some (st_mtimeMs st)"
        by (metis detector.select_convs(1) detector.surjective detector.update_convs(1,2) fun_upd_same,
            metis detector.select_convs(2) detector.surjective detector.update_convs(1,2) fun_upd_same)
      have "(dependencyGraph d')(f \<mapsto> resolveImports P fs (dirname P f) imps) = dependencyGraph d'"
        using gf upd False by (auto simp add: fun_eq_iff)
      moreover have "(fileTimestamps d')(f \<mapsto> st_mtimeMs st) = fileTimestamps d'"
        using tf upd False by (auto simp add: fun_eq_iff)
      ultimately show ?thesis using re(1,2,3,5,6)
        by (simp add: processFileForGraph_def)
    qed
  qed
qed

lemma processFiles_fixed_preserved:
  "processFileForGraph E P fs f d = Some d \<Longrightarrow> processFiles E P fs l d = Some d'
     \<Longrightarrow> processFileForGraph E P fs f d' = Some d'"
proof (induction l arbitrary: d)
  case Nil then show ?case by simp
next
  case (Cons g l)
  from Cons.prems(2) obtain d1 where g: "processFileForGraph E P fs g d = Some d1"
    and r: "processFiles E P fs l d1 = Some d'"
    by (auto split: option.splits)
  from processFileForGraph_fixed_other[OF Cons.prems(1) g] r Cons.IH show ?case by blast
qed

lemma processFiles_all_fixed:
  "processFiles E P fs l d = Some d' \<Longrightarrow> \<forall>f \<in> set l. processFileForGraph E P fs f d' = Some d'"
proof (induction l arbitrary: d)
  case Nil then show ?case by simp
next
  case (Cons g l)
  from Cons.prems obtain d1 where g: "processFileForGraph E P fs g d = Some d1"
    and r: "processFiles E P fs l d1 = Some d'"
    by (auto split: option.splits)
  from processFiles_fixed_preserved[OF processFileForGraph_fixed_after[OF g] r] Cons.IH[OF r]
  show ?case by simp
qed

lemma processFiles_of_fixed:
  "\<forall>f \<in> set l. processFileForGraph E P fs f d = Some d \<Longrightarrow> processFiles E P fs l d = Some d"
  by (induction l) simp_all

lemma processFileForGraph_flag:
  "processFileForGraph E P fs f (d\<lparr>isBuilding := b\<rparr>)
     = map_option (\<lambda>d'. d'\<lparr>isBuilding := b\<rparr>) (processFileForGraph E P fs f d)"
  by (auto simp add: processFileForGraph_def split: sum.splits option.splits)

lemma processFileForGraph_keeps_flag:
  "processFileForGraph E P fs f d = Some d' \<Longrightarrow> isBuilding d' = isBuilding d"
  by (auto simp add: processFileForGraph_def split: sum.splits option.splits if_splits)

lemma processFiles_keeps_flag:
  "processFiles E P fs l d = Some d' \<Longrightarrow> isBuilding d' = isBuilding d"
proof (induction l arbitrary: d)
  case Nil then show ?case by simp
next
  case (Cons g l)
  then show ?case by (auto split: option.splits dest: processFileForGraph_keeps_flag)
qed

text \<open>
  On an unchanged file system a second build on the same file list returns and leaves
  the detector, and so the dependency graph, as the first build left it.
\<close>

lemma buildGraph_twice:
  assumes "progressive E"
  shows "\<exists>d1. buildGraph E P fs filePaths d = Some (ReturnsUndefined, d1)
            \<and> buildGraph E P fs filePaths d1 = Some (ReturnsUndefined, d1)"
proof (cases "isBuilding d")
  case True
  then show ?thesis by (simp add: buildGraph_def)
next
  case False
  let ?l = "take MAX_FILES_PER_CHECK filePaths"
  from processFiles_returns[OF assms] obtain d' where run: "processFiles E P fs ?l (d\<lparr>isBuilding := True\<rparr>) = Some d'"
    by blast
  from processFiles_keeps_flag[OF run] have flag: "isBuilding d' = True" by simp
  have first: "buildGraph E P fs filePaths d = Some (ReturnsUndefined, d'\<lparr>isBuilding := False\<rparr>)"
    using False run by (simp add: buildGraph_def)
  from processFiles_all_fixed[OF run] have "\<forall>f \<in> set ?l. processFileForGraph E P fs f d' = Some d'" .
  moreover have "d'\<lparr>isBuilding := False, isBuilding := True\<rparr> = d'" using flag by simp
  ultimately have "processFiles E P fs ?l (d'\<lparr>isBuilding := False, isBuilding := True\<rparr>) = Some d'"
    by (simp add: processFiles_of_fixed)
  then have "buildGraph E P fs filePaths (d'\<lparr>isBuilding := False\<rparr>) = Some (ReturnsUndefined, d'\<lparr>isBuilding := False\<rparr>)"
    by (simp add: buildGraph_def)
  with first show ?thesis by blast
qed

text \<open>
  A build stores, for every file it has processed, the modification time the next build
  will test; an entry whose stored time is the current one and is not 0 is reused without
  reading the file, and an entry of a file whose modification time is 0 is computed again.
\<close>

lemma processFileForGraph_stamp_kept:
  assumes "processFileForGraph E P fs g d = Some d'" and "statSync fs f = Inr st"
    and "fileTimestamps d f = Some (st_mtimeMs st)"
  shows "fileTimestamps d' f = Some (st_mtimeMs st)"
  using processFileForGraph_cases[of E P fs g d] assms by (cases "g = f") auto

lemma processFileForGraph_stamp_set:
  assumes "processFileForGraph E P fs f d = Some d'" and "statSync fs f = Inr st"
    and "\<not> st_size st > MAX_FILE_SIZE" and "readFileSync fs f = Inr content"
    and "parse E content (getLanguageId P f) = Some (Inr imps)"
  shows "fileTimestamps d' f = Some (st_mtimeMs st)"
proof -
  from assms(2) have "existsSync fs f"
    by (auto simp add: statSync_def existsSync_def split: option.splits)
  with assms show ?thesis
    by (auto simp add: processFileForGraph_def cacheValid_def split: if_splits option.splits)
qed

lemma processFiles_stamp_kept:
  "processFiles E P fs l d = Some d' \<Longrightarrow> statSync fs f = Inr st \<Longrightarrow>
   fileTimestamps d f = Some (st_mtimeMs st) \<Longrightarrow> fileTimestamps d' f = Some (st_mtimeMs st)"
proof (induction l arbitrary: d)
  case Nil
  then show ?case by simp
next
  case (Cons g l)
  from Cons.prems(1) obtain d1 where g: "processFileForGraph E P fs g d = Some d1"
    and r: "processFiles E P fs l d1 = Some d'"
    by (auto split: option.splits)
  from processFileForGraph_stamp_kept[OF g Cons.prems(2,3)] Cons.IH[OF r Cons.prems(2)]
  show ?case by simp
qed

lemma processFiles_stamp_set:
  "processFiles E P fs l d = Some d' \<Longrightarrow> f \<in> set l \<Longrightarrow> statSync fs f = Inr st \<Longrightarrow>
   \<not> st_size st > MAX_FILE_SIZE \<Longrightarrow> readFileSync fs f = Inr content \<Longrightarrow>
   parse E content (getLanguageId P f) = Some (Inr imps) \<Longrightarrow>
   fileTimestamps d' f = Some (st_mtimeMs st)"
proof (induction l arbitrary: d)
  case Nil
  then show ?case by simp
next
  case (Cons g l)
  from Cons.prems(1) obtain d1 where g: "processFileForGraph E P fs g d = Some d1"
    and r: "processFiles E P fs l d1 = Some d'"
    by (auto split: option.splits)
  show ?case
  proof (cases "g = f")
    case True
    from processFileForGraph_stamp_set[OF g[unfolded True] Cons.prems(3,4,5,6)]
    have "fileTimestamps d1 f = Some (st_mtimeMs st)" .
    from processFiles_stamp_kept[OF r Cons.prems(3) this] show ?thesis .
  next
    case False
    with Cons.prems(2) have "f \<in> set l" by simp
    from Cons.IH[OF r this Cons.prems(3,4,5,6)] show ?thesis .
  qed
qed

lemma buildGraph_stores_current_time:
  assumes "buildGraph E P fs filePaths d = Some (c, d1)" and "\<not> isBuilding d"
    and "f \<in> set (take MAX_FILES_PER_CHECK filePaths)" and "statSync fs f = Inr st"
    and "\<not> st_size st > MAX_FILE_SIZE" and "readFileSync fs f = Inr content"
    and "parse E content (getLanguageId P f) = Some (Inr imps)"
  shows "fileTimestamps d1 f = Some (st_mtimeMs st)"
proof -
  from assms(1,2) obtain d' where run: "processFiles E P fs (take MAX_FILES_PER_CHECK filePaths) (d\<lparr>isBuilding := True\<rparr>) = Some d'"
    and d1: "d1 = d'\<lparr>isBuilding := False\<rparr>"
    by (auto simp add: buildGraph_def split: option.splits)
  from processFiles_stamp_set[OF run assms(3,4,5,6,7)] d1 show ?thesis by simp
qed

lemma reuse_at_nonzero_time:
  assumes "statSync fs f = Inr st" and "fileTimestamps d f = Some (st_mtimeMs st)" and "st_mtimeMs st \<noteq> 0"
  shows "processFileForGraph E P fs f d = Some d"
  using assms by (auto simp add: processFileForGraph_def cacheValid_def)

lemma recomputed_at_time_zero:
  assumes "statSync fs f = Inr st" and "st_mtimeMs st = 0" and "\<not> st_size st > MAX_FILE_SIZE"
    and "readFileSync fs f = Inr content" and "parse E content (getLanguageId P f) = Some (Inr imps)"
  shows "processFileForGraph E P fs f d
     = Some (d\<lparr>dependencyGraph := (dependencyGraph d)(f \<mapsto> resolveImports P fs (dirname P f) imps),
               fileTimestamps := (fileTimestamps d)(f \<mapsto> 0)\<rparr>)"
proof -
  from assms(1) have "existsSync fs f"
    by (auto simp add: statSync_def existsSync_def split: option.splits)
  with assms show ?thesis
    by (simp add: processFileForGraph_def cacheValid_def split: option.splits)
qed


lemma build_at_time:
  "buildGraph js_exec posix
     [''/p/a.js'' \<mapsto> RegularFile (''import x from '' @ [CHR 0x27] @ ''./b'' @ [CHR 0x27]) t 19,
      ''/p/b.js'' \<mapsto> RegularFile [] 7 0]
     [''/p/a.js'']
     \<lparr>dependencyGraph = Map.empty, fileTimestamps = Map.empty, isBuilding = False\<rparr>
   = Some (ReturnsUndefined,
     \<lparr>dependencyGraph = [''/p/a.js'' \<mapsto> [''/p/b.js'']],
      fileTimestamps = [''/p/a.js'' \<mapsto> t], isBuilding = False\<rparr>)"
proof -
  have p1: "parse js_exec (''import x from '' @ [CHR 0x27] @ ''./b'' @ [CHR 0x27]) ''javascript''
     = Some (Inr [\<lparr>imp_path = ''./b'', imp_index = 0, imp_length = 19,
                    imp_fullMatch = ''import x from '' @ [CHR 0x27] @ ''./b'' @ [CHR 0x27]\<rparr>])"
    by code_simp
  have l: "getLanguageId posix ''/p/a.js'' = ''javascript''"
    by code_simp
  have d: "dirname posix ''/p/a.js'' = ''/p''"
    by code_simp
  have e: "existsSync [''/p/a.js'' \<mapsto> RegularFile (''import x from '' @ [CHR 0x27] @ ''./b'' @ [CHR 0x27]) t 19,
      ''/p/b.js'' \<mapsto> RegularFile [] 7 0] = (\<lambda>p. p = ''/p/a.js'' \<or> p = ''/p/b.js'')"
    by (auto simp add: existsSync_def fun_eq_iff)
  have r0: "resolve posix ''/p'' ''./b'' = ''/p/b''" by code_simp
  have r: "resolveImportPath posix
     [''/p/a.js'' \<mapsto> RegularFile (''import x from '' @ [CHR 0x27] @ ''./b'' @ [CHR 0x27]) t 19,
      ''/p/b.js'' \<mapsto> RegularFile [] 7 0]
     ''/p'' ''./b'' = Some ''/p/b.js''"
    unfolding resolveImportPath_def e r0 by (simp add: extensions_def)
  show ?thesis
    using p1 l d r
    by (simp add: buildGraph_def MAX_FILES_PER_CHECK_def processFileForGraph_def existsSync_def
        statSync_def readFileSync_def cacheValid_def MAX_FILE_SIZE_def startsWithDot_def truthy_def)
qed

lemma rebuild_at_time:
  "buildGraph js_exec posix
     [''/p/a.js'' \<mapsto> RegularFile [] t 0, ''/p/b.js'' \<mapsto> RegularFile [] 7 0]
     [''/p/a.js'']
     \<lparr>dependencyGraph = [''/p/a.js'' \<mapsto> [''/p/b.js'']],
      fileTimestamps = [''/p/a.js'' \<mapsto> t], isBuilding = False\<rparr>
   = Some (ReturnsUndefined,
     \<lparr>dependencyGraph = [''/p/a.js'' \<mapsto> (if t = 0 then [] else [''/p/b.js''])],
      fileTimestamps = [''/p/a.js'' \<mapsto> t], isBuilding = False\<rparr>)"
proof -
  have p2: "parse js_exec [] ''javascript'' = Some (Inr [])"
    by code_simp
  have l: "getLanguageId posix ''/p/a.js'' = ''javascript''"
    by code_simp
  show ?thesis
    using p2 l
    by (simp add: buildGraph_def MAX_FILES_PER_CHECK_def processFileForGraph_def existsSync_def
        statSync_def readFileSync_def cacheValid_def MAX_FILE_SIZE_def)
qed


text \<open>
  C7 does not hold of the code at the modification time 0. The test
  \<open>cachedTime && cachedTime === stats.mtimeMs\<close> takes a stored time of 0 for no stored time,
  0 being falsy, against the comments at the test (\<open>Check cache validity\<close>,
  \<open>Already processed and unchanged\<close>): the entry of a file whose modification time is 0 is
  computed again on every build. Here \<open>a.js\<close> has the modification time 0 and imports
  \<open>b.js\<close>, and the first build stores the entry \<open>[b.js]\<close> and the time 0. Then the import
  is removed from \<open>a.js\<close> and its modification time is still 0, the stored one: the second
  build, on the same file list, replaces the entry by \<open>[]\<close>. With the modification time 5
  in place of 0 the second build reuses the entry \<open>[b.js]\<close>.
\<close>

theorem buildGraph_recomputes_at_time_zero:
  "buildGraph js_exec posix
     [''/p/a.js'' \<mapsto> RegularFile (''import x from '' @ [CHR 0x27] @ ''./b'' @ [CHR 0x27]) 0 19,
      ''/p/b.js'' \<mapsto> RegularFile [] 7 0]
     [''/p/a.js'']
     \<lparr>dependencyGraph = Map.empty, fileTimestamps = Map.empty, isBuilding = False\<rparr>
   = Some (ReturnsUndefined,
     \<lparr>dependencyGraph = [''/p/a.js'' \<mapsto> [''/p/b.js'']],
      fileTimestamps = [''/p/a.js'' \<mapsto> 0], isBuilding = False\<rparr>)
   \<and> statSync [''/p/a.js'' \<mapsto> RegularFile [] 0 0, ''/p/b.js'' \<mapsto> RegularFile [] 7 0] ''/p/a.js''
     = Inr \<lparr>st_size = 0, st_mtimeMs = 0\<rparr>
   \<and> buildGraph js_exec posix
     [''/p/a.js'' \<mapsto> RegularFile [] 0 0, ''/p/b.js'' \<mapsto> RegularFile [] 7 0]
     [''/p/a.js'']
     \<lparr>dependencyGraph = [''/p/a.js'' \<mapsto> [''/p/b.js'']],
      fileTimestamps = [''/p/a.js'' \<mapsto> 0], isBuilding = False\<rparr>
   = Some (ReturnsUndefined,
     \<lparr>dependencyGraph = [''/p/a.js'' \<mapsto> []],
      fileTimestamps = [''/p/a.js'' \<mapsto> 0], isBuilding = False\<rparr>)
   \<and> buildGraph js_exec posix
     [''/p/a.js'' \<mapsto> RegularFile [] 5 0, ''/p/b.js'' \<mapsto> RegularFile [] 7 0]
     [''/p/a.js'']
     \<lparr>dependencyGraph = [''/p/a.js'' \<mapsto> [''/p/b.js'']],
      fileTimestamps = [''/p/a.js'' \<mapsto> 5], isBuilding = False\<rparr>
   = Some (ReturnsUndefined,
     \<lparr>dependencyGraph = [''/p/a.js'' \<mapsto> [''/p/b.js'']],
      fileTimestamps = [''/p/a.js'' \<mapsto> 5], isBuilding = False\<rparr>)"
  using build_at_time[of 0] rebuild_at_time[of 0] rebuild_at_time[of 5]
  by (simp add: statSync_def)

section \<open>Calls during a running pass\<close>

text \<open>
  C8, as the claim states it, fails: a call that is declined returns \<open>undefined\<close>, which is
  what a call that runs to its end returns, so nothing tells the caller that the call
  was declined. Shown for \<open>learn\<close> and for \<open>buildGraph\<close>, each with the flag set and not set.
\<close>

theorem declined_call_gives_no_signal:
  "fst (learn Map.empty []
      \<lparr>vectors = Map.empty, importCounts = [], loc = [], statsModel = None, isLearning = True\<rparr>)
     = ReturnsUndefined
   \<and> fst (learn Map.empty []
      \<lparr>vectors = Map.empty, importCounts = [], loc = [], statsModel = None, isLearning = False\<rparr>)
     = ReturnsUndefined
   \<and> map_option fst (buildGraph js_exec posix Map.empty []
      \<lparr>dependencyGraph = Map.empty, fileTimestamps = Map.empty, isBuilding = True\<rparr>)
     = Some ReturnsUndefined
   \<and> map_option fst (buildGraph js_exec posix Map.empty []
      \<lparr>dependencyGraph = Map.empty, fileTimestamps = Map.empty, isBuilding = False\<rparr>)
     = Some ReturnsUndefined"
  by (simp add: learn_def buildGraph_def Let_def)

text \<open>
  C8, amended. When \<open>learn\<close> or \<open>buildGraph\<close> is called while its flag is set, the call leaves
  all the state (vectors, counts, stats model, dependency graph, timestamps, the flag)
  as it is and returns \<open>undefined\<close>, as every call does.
\<close>

theorem declined_call_changes_nothing:
  "(isLearning k \<longrightarrow> learn fs filePaths k = (ReturnsUndefined, k))
   \<and> (isBuilding d \<longrightarrow> buildGraph E P fs filePaths d = Some (ReturnsUndefined, d))"
  by (simp add: learn_def buildGraph_def)

theorem declined_call_changes_nothing_witness:
  "learn [''/p/a.js'' \<mapsto> RegularFile ''import x'' 5 8] [''/p/a.js'']
      \<lparr>vectors = Map.empty, importCounts = [], loc = [], statsModel = None, isLearning = True\<rparr>
     = (ReturnsUndefined,
        \<lparr>vectors = Map.empty, importCounts = [], loc = [], statsModel = None, isLearning = True\<rparr>)
   \<and> buildGraph js_exec posix [''/p/a.js'' \<mapsto> RegularFile ''import x'' 5 8] [''/p/a.js'']
      \<lparr>dependencyGraph = Map.empty, fileTimestamps = Map.empty, isBuilding = True\<rparr>
     = Some (ReturnsUndefined,
        \<lparr>dependencyGraph = Map.empty, fileTimestamps = Map.empty, isBuilding = True\<rparr>)"
  using declined_call_changes_nothing
    [of "\<lparr>vectors = Map.empty, importCounts = [], loc = [], statsModel = None, isLearning = True\<rparr>"
        "[''/p/a.js'' \<mapsto> RegularFile ''import x'' 5 8]" "[''/p/a.js'']"
        "\<lparr>dependencyGraph = Map.empty, fileTimestamps = Map.empty, isBuilding = True\<rparr>"
        js_exec posix]
  by simp

section \<open>Properties of checkCycle\<close>

text \<open>
  C3, as the claim states it, fails: \<open>checkCycle\<close> first tests that the target exists, and for
  a path that names no file \<open>checkCycle(A, A)\<close> returns \<open>null\<close>.
\<close>

theorem checkCycle_self_import_missing_file:
  "checkCycle js_exec posix Map.empty \<lparr>limit = 200, cache = []\<rparr> ''/p/a.js'' ''/p/a.js''
     = Some (None, \<lparr>limit = 200, cache = []\<rparr>)"
  by (simp add: checkCycle_def existsSync_def)

text \<open>
  C3, amended. For every path \<open>A\<close> that exists in the file system, \<open>checkCycle(A, A)\<close> reports
  a cycle (\<open>isCycle = true\<close>, a self-import), whatever the import cache holds, and leaves the
  cache as it is.
\<close>

theorem checkCycle_self_import:
  "existsSync fs A \<Longrightarrow>
     checkCycle E P fs c A A
       = Some (Some \<lparr>isCycle = True, cc_message = ''Self-import detected!''\<rparr>, c)"
  by (simp add: checkCycle_def areSameFile_def)

theorem checkCycle_self_import_witness:
  "checkCycle js_exec posix [''/p/a.js'' \<mapsto> RegularFile ''import x'' 5 8]
      \<lparr>limit = 200, cache = []\<rparr> ''/p/a.js'' ''/p/a.js''
     = Some (Some \<lparr>isCycle = True, cc_message = ''Self-import detected!''\<rparr>,
             \<lparr>limit = 200, cache = []\<rparr>)"
  using checkCycle_self_import
    [of "[''/p/a.js'' \<mapsto> RegularFile ''import x'' 5 8]" "''/p/a.js''" js_exec posix
        "\<lparr>limit = 200, cache = []\<rparr>"]
  by (simp add: existsSync_def)

section \<open>Properties of validate\<close>

lemma findLayerIndex_from_none:
  "\<forall>l \<in> set ls. \<not> mm p (layer_pattern l) False \<Longrightarrow> findLayerIndex_from mm p ls i = - 1"
  by (induction ls arbitrary: i) simp_all

lemma findLayerIndex_from_first:
  "firstLayer mm ls p n \<Longrightarrow> findLayerIndex_from mm p ls i = i + int n"
proof (induction ls arbitrary: i n)
  case Nil
  then show ?case by (simp add: firstLayer_def)
next
  case (Cons l ls)
  show ?case
  proof (cases n)
    case 0
    with Cons.prems show ?thesis by (simp add: firstLayer_def)
  next
    case (Suc n')
    with Cons.prems have h: "\<not> mm p (layer_pattern l) False" and f: "firstLayer mm ls p n'"
      by (auto simp add: firstLayer_def)
    from Cons.IH[OF f, of "i + 1"] h Suc show ?thesis by simp
  qed
qed

lemma firstLayer_exists:
  "\<exists>l \<in> set ls. mm p (layer_pattern l) False \<Longrightarrow> \<exists>n. firstLayer mm ls p n"
proof -
  assume "\<exists>l \<in> set ls. mm p (layer_pattern l) False"
  then obtain k where k: "k < length ls \<and> mm p (layer_pattern (ls ! k)) False"
    by (metis in_set_conv_nth)
  define n where "n = (LEAST k. k < length ls \<and> mm p (layer_pattern (ls ! k)) False)"
  have "n < length ls \<and> mm p (layer_pattern (ls ! n)) False"
    unfolding n_def using k by (rule LeastI)
  moreover have "\<forall>j < n. \<not> mm p (layer_pattern (ls ! j)) False"
  proof (intro allI impI notI)
    fix j assume "j < n" and m: "mm p (layer_pattern (ls ! j)) False"
    with calculation have "j < length ls \<and> mm p (layer_pattern (ls ! j)) False" by simp
    then have "n \<le> j" unfolding n_def by (rule Least_le)
    with \<open>j < n\<close> show False by simp
  qed
  ultimately show ?thesis unfolding firstLayer_def by blast
qed

lemma firstLayer_unique: "firstLayer mm ls p n \<Longrightarrow> firstLayer mm ls p n' \<Longrightarrow> n = n'"
  unfolding firstLayer_def by (metis linorder_neqE_nat)

lemma findLayerIndex_char:
  "(findLayerIndex mm p ls = - 1 \<longleftrightarrow> (\<forall>n. \<not> firstLayer mm ls p n))
   \<and> (firstLayer mm ls p n \<longrightarrow> findLayerIndex mm p ls = int n)"
proof -
  have a: "firstLayer mm ls p n \<Longrightarrow> findLayerIndex mm p ls = int n" for n
    using findLayerIndex_from_first[of mm ls p n 0] by (simp add: findLayerIndex_def)
  have b: "\<forall>n. \<not> firstLayer mm ls p n \<Longrightarrow> findLayerIndex mm p ls = - 1"
    using firstLayer_exists[of ls mm p] findLayerIndex_from_none[of ls mm p 0]
    by (auto simp add: findLayerIndex_def)
  have c: "findLayerIndex mm p ls = - 1 \<Longrightarrow> \<not> firstLayer mm ls p n" for n
    using a[of n] by auto
  from a b c show ?thesis by blast
qed

text \<open>
  C4. \<open>validate\<close> returns one violation or none. When a rule fires, its violation is the
  result, and the layers are not looked at; when no rule fires, the result is that of
  the layer check. The layer check returns a violation exactly when the source and the
  target each match a layer, each being given the first layer in list order whose
  pattern matches it, and the source's layer comes strictly before the target's; the
  violation names these two layers. A path that matches no layer gets no layer
  violation, and so does every path when no layers are configured.
\<close>

theorem validate_rules_before_layers:
  "(checkRuleViolations mm (normalizePath s) (normalizePath t) rules = Some v
      \<longrightarrow> validate mm s t rules layers = Some v)
   \<and> (checkRuleViolations mm (normalizePath s) (normalizePath t) rules = None
      \<longrightarrow> validate mm s t rules layers
            = checkLayerViolations mm (normalizePath s) (normalizePath t) layers)
   \<and> (checkLayerViolations mm S T (Some ls) \<noteq> None
        \<longleftrightarrow> (\<exists>i j. firstLayer mm ls S i \<and> firstLayer mm ls T j \<and> i < j))
   \<and> (firstLayer mm ls S i \<and> firstLayer mm ls T j \<and> i < j
      \<longrightarrow> checkLayerViolations mm S T (Some ls)
            = Some \<lparr>isViolation = True,
                    v_message = ''Layer Violation: '' @ [CHR 0x27] @ layer_name (ls ! i) @ [CHR 0x27]
                      @ '' layer cannot depend on outer '' @ [CHR 0x27] @ layer_name (ls ! j)
                      @ [CHR 0x27] @ '' layer.''\<rparr>)
   \<and> checkLayerViolations mm S T None = None"
proof (intro conjI)
  show "checkRuleViolations mm (normalizePath s) (normalizePath t) rules = Some v
      \<longrightarrow> validate mm s t rules layers = Some v"
    by (simp add: validate_def)
  show "checkRuleViolations mm (normalizePath s) (normalizePath t) rules = None
      \<longrightarrow> validate mm s t rules layers
            = checkLayerViolations mm (normalizePath s) (normalizePath t) layers"
    by (simp add: validate_def split: option.splits)
  show "checkLayerViolations mm S T None = None"
    by (simp add: checkLayerViolations_def)
  show pos: "firstLayer mm ls S i \<and> firstLayer mm ls T j \<and> i < j
      \<longrightarrow> checkLayerViolations mm S T (Some ls)
            = Some \<lparr>isViolation = True,
                    v_message = ''Layer Violation: '' @ [CHR 0x27] @ layer_name (ls ! i) @ [CHR 0x27]
                      @ '' layer cannot depend on outer '' @ [CHR 0x27] @ layer_name (ls ! j)
                      @ [CHR 0x27] @ '' layer.''\<rparr>" for i j
  proof
    assume h: "firstLayer mm ls S i \<and> firstLayer mm ls T j \<and> i < j"
    then have "findLayerIndex mm S ls = int i" "findLayerIndex mm T ls = int j"
      using findLayerIndex_char by blast+
    moreover from h have "ls \<noteq> []" by (auto simp add: firstLayer_def)
    ultimately show "checkLayerViolations mm S T (Some ls)
            = Some \<lparr>isViolation = True,
                    v_message = ''Layer Violation: '' @ [CHR 0x27] @ layer_name (ls ! i) @ [CHR 0x27]
                      @ '' layer cannot depend on outer '' @ [CHR 0x27] @ layer_name (ls ! j)
                      @ [CHR 0x27] @ '' layer.''\<rparr>"
      using h by (simp add: checkLayerViolations_def)
  qed
  show "checkLayerViolations mm S T (Some ls) \<noteq> None
        \<longleftrightarrow> (\<exists>i j. firstLayer mm ls S i \<and> firstLayer mm ls T j \<and> i < j)"
  proof
    assume "\<exists>i j. firstLayer mm ls S i \<and> firstLayer mm ls T j \<and> i < j"
    with pos show "checkLayerViolations mm S T (Some ls) \<noteq> None" by fastforce
  next
    assume nn: "checkLayerViolations mm S T (Some ls) \<noteq> None"
    then have s1: "findLayerIndex mm S ls \<noteq> - 1" and t1: "findLayerIndex mm T ls \<noteq> - 1"
      and lt: "findLayerIndex mm S ls < findLayerIndex mm T ls"
      by (auto simp add: checkLayerViolations_def Let_def split: if_splits)
    from s1 obtain i where i: "firstLayer mm ls S i" using findLayerIndex_char by blast
    from t1 obtain j where j: "firstLayer mm ls T j" using findLayerIndex_char by blast
    from i j lt have "i < j" using findLayerIndex_char[of mm S ls i] findLayerIndex_char[of mm T ls j] by simp
    with i j show "\<exists>i j. firstLayer mm ls S i \<and> firstLayer mm ls T j \<and> i < j" by blast
  qed
qed


theorem validate_rules_before_layers_witness:
  "validate example_glob ''ui/page.js'' ''db/conn.js''
      [\<lparr>rule_source = ''ui/**'', rule_disallow = Some [''db/**''], rule_message = Some ''no db in ui''\<rparr>]
      (Some [\<lparr>layer_name = ''Domain'', layer_pattern = ''ui/**''\<rparr>,
             \<lparr>layer_name = ''UI'', layer_pattern = ''db/**''\<rparr>])
     = Some \<lparr>isViolation = True, v_message = ''no db in ui''\<rparr>
   \<and> validate example_glob ''domain/user.js'' ''ui/page.js'' []
      (Some [\<lparr>layer_name = ''Domain'', layer_pattern = ''domain/**''\<rparr>,
             \<lparr>layer_name = ''UI'', layer_pattern = ''ui/**''\<rparr>])
     = Some \<lparr>isViolation = True,
              v_message = ''Layer Violation: '' @ [CHR 0x27] @ ''Domain'' @ [CHR 0x27]
                @ '' layer cannot depend on outer '' @ [CHR 0x27] @ ''UI'' @ [CHR 0x27]
                @ '' layer.''\<rparr>"
proof -
  let ?ls = "[\<lparr>layer_name = ''Domain'', layer_pattern = ''domain/**''\<rparr>,
              \<lparr>layer_name = ''UI'', layer_pattern = ''ui/**''\<rparr>]"
  have rule_fires: "checkRuleViolations example_glob (normalizePath ''ui/page.js'')
      (normalizePath ''db/conn.js'')
      [\<lparr>rule_source = ''ui/**'', rule_disallow = Some [''db/**''], rule_message = Some ''no db in ui''\<rparr>]
     = Some \<lparr>isViolation = True, v_message = ''no db in ui''\<rparr>"
    by (simp add: normalizePath_def slashes_def example_glob_def startsWith_def truthy_def)
  have first: "validate example_glob ''ui/page.js'' ''db/conn.js''
      [\<lparr>rule_source = ''ui/**'', rule_disallow = Some [''db/**''], rule_message = Some ''no db in ui''\<rparr>]
      (Some [\<lparr>layer_name = ''Domain'', layer_pattern = ''ui/**''\<rparr>,
             \<lparr>layer_name = ''UI'', layer_pattern = ''db/**''\<rparr>])
     = Some \<lparr>isViolation = True, v_message = ''no db in ui''\<rparr>"
    using validate_rules_before_layers
      [of example_glob "''ui/page.js''" "''db/conn.js''"
          "[\<lparr>rule_source = ''ui/**'', rule_disallow = Some [''db/**''], rule_message = Some ''no db in ui''\<rparr>]"
          "\<lparr>isViolation = True, v_message = ''no db in ui''\<rparr>"] rule_fires
    by blast
  have s: "firstLayer example_glob ?ls ''domain/user.js'' 0"
    and t: "firstLayer example_glob ?ls ''ui/page.js'' 1"
    by (simp_all add: firstLayer_def example_glob_def startsWith_def)
  have n: "normalizePath ''domain/user.js'' = ''domain/user.js''"
    "normalizePath ''ui/page.js'' = ''ui/page.js''"
    by (simp_all add: normalizePath_def slashes_def)
  have second: "validate example_glob ''domain/user.js'' ''ui/page.js'' [] (Some ?ls)
     = Some \<lparr>isViolation = True,
              v_message = ''Layer Violation: '' @ [CHR 0x27] @ ''Domain'' @ [CHR 0x27]
                @ '' layer cannot depend on outer '' @ [CHR 0x27] @ ''UI'' @ [CHR 0x27]
                @ '' layer.''\<rparr>"
    using validate_rules_before_layers
      [of example_glob "''domain/user.js''" "''ui/page.js''" "[]" _ "Some ?ls"
          "''domain/user.js''" "''ui/page.js''" ?ls 0 1] s t n
    by simp
  from first second show ?thesis by simp
qed

section \<open>Properties of the numbers\<close>

lemma round_ties_even_of_int: "round_ties_even (of_int n) = n"
  by (simp add: round_ties_even_def)

lemma round_ties_even_near: "\<bar>of_int (round_ties_even y) - y\<bar> \<le> 1 / 2"
proof -
  have "of_int \<lfloor>y\<rfloor> \<le> y" "y < of_int \<lfloor>y\<rfloor> + 1" by linarith+
  then show ?thesis
    by (auto simp add: round_ties_even_def Let_def)
qed

lemma round_ties_even_unique:
  assumes "of_int k - 1 / 2 < y" and "y < of_int k + 1 / 2"
  shows "round_ties_even y = k"
proof -
  have n: "\<bar>of_int (round_ties_even y) - y\<bar> \<le> 1 / 2" by (rule round_ties_even_near)
  with assms have "\<bar>(of_int (round_ties_even y) :: real) - of_int k\<bar> < 1" by linarith
  then have "\<bar>of_int (round_ties_even y - k) :: real\<bar> < 1" by simp
  then have "\<bar>round_ties_even y - k\<bar> < 1"
    by (metis of_int_abs of_int_less_1_iff)
  then show ?thesis by simp
qed

lemma round_ties_even_nonneg: "0 \<le> y \<Longrightarrow> 0 \<le> round_ties_even y"
  by (auto simp add: round_ties_even_def Let_def)

lemma powr_shift: "(2::real) powr (a + real n) = 2 ^ n * 2 powr a"
  by (simp add: powr_add powr_realpow mult.commute)

lemma significand_bounds:
  assumes "x \<noteq> 0"
  defines "e \<equiv> \<lfloor>log 2 \<bar>x\<bar>\<rfloor> - 52"
  shows "2 ^ 52 \<le> \<bar>x / 2 powr of_int e\<bar>" and "\<bar>x / 2 powr of_int e\<bar> < 2 ^ 53"
proof -
  let ?L = "\<lfloor>log 2 \<bar>x\<bar>\<rfloor>"
  from assms(1) have pos: "0 < \<bar>x\<bar>" by simp
  from floor_log_eq_powr_iff[OF pos, of 2 ?L]
  have lo: "2 powr of_int ?L \<le> \<bar>x\<bar>" and hi: "\<bar>x\<bar> < 2 powr (of_int ?L + 1)" by simp_all
  have abs: "\<bar>x / 2 powr of_int e\<bar> = \<bar>x\<bar> / 2 powr of_int e" by simp
  have "(2::real) powr of_int ?L = 2 ^ 52 * 2 powr of_int e"
    unfolding e_def using powr_shift[of "real_of_int ?L - 52" 52] by simp
  with lo have "2 ^ 52 * 2 powr of_int e \<le> \<bar>x\<bar>" by simp
  then have "2 ^ 52 \<le> \<bar>x\<bar> / 2 powr of_int e" by (simp add: pos_le_divide_eq)
  then show "2 ^ 52 \<le> \<bar>x / 2 powr of_int e\<bar>" unfolding abs by simp
  have "(2::real) powr (of_int ?L + 1) = 2 ^ 53 * 2 powr of_int e"
    unfolding e_def using powr_shift[of "real_of_int ?L - 52" 53] by (simp add: algebra_simps)
  with hi have "\<bar>x\<bar> < 2 ^ 53 * 2 powr of_int e" by simp
  then have "\<bar>x\<bar> / 2 powr of_int e < 2 ^ 53" by (simp add: pos_divide_less_eq)
  then show "\<bar>x / 2 powr of_int e\<bar> < 2 ^ 53" unfolding abs by simp
qed

lemma fl_zero: "fl 0 = 0"
  by (simp add: fl_def)

lemma fl_scaled:
  assumes y: "y = x / 2 powr of_int e" and lo: "2 ^ 52 \<le> \<bar>y\<bar>" and hi: "\<bar>y\<bar> < 2 ^ 53"
  shows "fl x = of_int (round_ties_even y) * 2 powr of_int e"
proof -
  from lo have "y \<noteq> 0" by auto
  with y have x0: "x \<noteq> 0" by auto
  then have pos: "0 < \<bar>x\<bar>" by simp
  have ax: "\<bar>x\<bar> = \<bar>y\<bar> * 2 powr of_int e" using y by simp
  have "(2::real) powr (of_int (e + 52)) = 2 ^ 52 * 2 powr of_int e"
    using powr_shift[of "real_of_int e" 52] by simp
  moreover have "(2::real) powr (of_int (e + 52) + 1) = 2 ^ 53 * 2 powr of_int e"
    using powr_shift[of "real_of_int e" 53] by (simp add: algebra_simps)
  ultimately have "(2::real) powr of_int (e + 52) \<le> \<bar>x\<bar> \<and> \<bar>x\<bar> < 2 powr (of_int (e + 52) + 1)"
    using lo hi ax by simp
  with floor_log_eq_powr_iff[OF pos, of 2 "e + 52"] have "\<lfloor>log 2 \<bar>x\<bar>\<rfloor> = e + 52" by simp
  then show ?thesis using x0 y by (simp add: fl_def)
qed

lemma fl_exact:
  assumes "x = of_int n * 2 powr of_int e" and "2 ^ 52 \<le> \<bar>n\<bar>" and "\<bar>n\<bar> < 2 ^ 53"
  shows "fl x = x"
proof -
  have y: "of_int n = x / 2 powr of_int e" using assms(1) by simp
  have "(2::real) ^ 52 \<le> \<bar>of_int n\<bar>" "\<bar>of_int n :: real\<bar> < 2 ^ 53"
    using assms(2,3) by (metis of_int_abs of_int_le_iff of_int_numeral of_int_power,
        metis of_int_abs of_int_less_iff of_int_numeral of_int_power)
  from fl_scaled[OF y this] show ?thesis using assms(1) by (simp add: round_ties_even_of_int)
qed

lemma fl_error:
  "\<bar>fl x - x\<bar> \<le> \<bar>x\<bar> / 2 ^ 53"
proof (cases "x = 0")
  case True
  then show ?thesis by (simp add: fl_zero)
next
  case False
  define e where "e = \<lfloor>log 2 \<bar>x\<bar>\<rfloor> - 52"
  define y where "y = x / 2 powr of_int e"
  from significand_bounds[OF False] have lo: "2 ^ 52 \<le> \<bar>y\<bar>" and hi: "\<bar>y\<bar> < 2 ^ 53"
    unfolding y_def e_def by simp_all
  have f: "fl x = of_int (round_ties_even y) * 2 powr of_int e"
    using False by (simp add: fl_def e_def y_def Let_def)
  have x: "x = y * 2 powr of_int e" by (simp add: y_def)
  have "fl x - x = (of_int (round_ties_even y) - y) * 2 powr of_int e"
    unfolding f by (subst x) (simp add: algebra_simps)
  then have "\<bar>fl x - x\<bar> = \<bar>of_int (round_ties_even y) - y\<bar> * 2 powr of_int e"
    by (simp add: abs_mult)
  also have "\<dots> \<le> (1 / 2) * 2 powr of_int e"
    by (intro mult_right_mono round_ties_even_near) simp
  also have "\<dots> \<le> (\<bar>y\<bar> / 2 ^ 53) * 2 powr of_int e"
    using lo by (intro mult_right_mono) simp_all
  also have "\<dots> = \<bar>x\<bar> / 2 ^ 53" by (subst x) (simp add: abs_mult)
  finally show ?thesis .
qed

lemma fl_nonneg: "0 \<le> x \<Longrightarrow> 0 \<le> fl x"
  using round_ties_even_nonneg[of "x / 2 powr of_int (\<lfloor>log 2 \<bar>x\<bar>\<rfloor> - 52)"]
  by (simp add: fl_def Let_def)

lemma fl_eq_zero_iff: "fl x = 0 \<longleftrightarrow> x = 0"
proof
  assume z: "fl x = 0"
  show "x = 0"
  proof (rule ccontr)
    assume "x \<noteq> 0"
    then have "\<bar>x\<bar> / 2 ^ 53 < \<bar>x\<bar>" by simp
    with fl_error[of x] z show False by simp
  qed
qed (simp add: fl_zero)

lemma fl_between:
  assumes "0 \<le> x"
  shows "(1 - 1 / 2 ^ 53) * x \<le> fl x" and "fl x \<le> (1 + 1 / 2 ^ 53) * x"
proof -
  from fl_error[of x] assms have "\<bar>fl x - x\<bar> \<le> x / 2 ^ 53" by simp
  then have "x - x / 2 ^ 53 \<le> fl x" "fl x \<le> x + x / 2 ^ 53" by linarith+
  then show "(1 - 1 / 2 ^ 53) * x \<le> fl x" "fl x \<le> (1 + 1 / 2 ^ 53) * x"
    by (simp_all add: algebra_simps)
qed

lemma fl_pos: "0 < x \<Longrightarrow> 0 < fl x"
  using fl_nonneg[of x] fl_eq_zero_iff[of x] by (cases "fl x = 0") auto

lemma bound_numbers:
  "(1 + 1 / 2 ^ 53) \<le> (1 + 1 / 2 ^ 50) * ((1 - 1 / 2 ^ 53) * ((1 - 1 / 2 ^ 53) * (1 - 1 / 2 ^ 53 :: real)))"
  "(1 - 1 / 2 ^ 50) * ((1 + 1 / 2 ^ 53) * ((1 + 1 / 2 ^ 53) * (1 + 1 / 2 ^ 53 :: real))) \<le> 1 - 1 / 2 ^ 53"
  by simp_all

lemma normalised_quotient_near_one:
  assumes m: "0 < m"
  shows "\<bar>fl (m / fl (fl (sqrt m) * fl (sqrt m))) - 1\<bar> \<le> 1 / 2 ^ 50"
proof -
  define a :: real where "a = 1 - 1 / 2 ^ 53"
  define b :: real where "b = 1 + 1 / 2 ^ 53"
  have a: "0 < a" and b: "0 < b" by (simp_all add: a_def b_def)
  define r where "r = sqrt m"
  have r: "0 < r" and rr: "r * r = m" using m by (simp_all add: r_def)
  define s where "s = fl r"
  have s_lo: "a * r \<le> s" and s_hi: "s \<le> b * r"
    using fl_between[of r] r unfolding s_def a_def b_def by simp_all
  have s: "0 < s" unfolding s_def using r by (rule fl_pos)
  have ar: "0 < a * r" and br: "0 < b * r" using a b r by simp_all
  have t_lo: "(a * r) * (a * r) \<le> s * s" using s_lo ar by (intro mult_mono) simp_all
  have t_hi: "s * s \<le> (b * r) * (b * r)" using s_hi s by (intro mult_mono) simp_all
  define p where "p = fl (s * s)"
  have ss: "0 < s * s" using s by simp
  have p_lo: "a * (s * s) \<le> p" and p_hi: "p \<le> b * (s * s)"
    using fl_between[of "s * s"] ss unfolding p_def a_def b_def by simp_all
  have p: "0 < p" unfolding p_def using ss by (rule fl_pos)
  have "a * ((a * r) * (a * r)) \<le> a * (s * s)" using t_lo a by simp
  with p_lo have P_lo: "(a * (a * a)) * m \<le> p" using rr by (simp add: algebra_simps)
  have "b * (s * s) \<le> b * ((b * r) * (b * r))" using t_hi b by simp
  with p_hi have P_hi: "p \<le> (b * (b * b)) * m" using rr by (simp add: algebra_simps)
  define q where "q = fl (m / p)"
  have mp: "0 < m / p" using m p by simp
  have q_lo: "a * (m / p) \<le> q" and q_hi: "q \<le> b * (m / p)"
    using fl_between[of "m / p"] mp unfolding q_def a_def b_def by simp_all
  have a3: "0 < a * (a * a)" and b3: "0 < b * (b * b)" using a b by simp_all
  have up: "m / p \<le> 1 / (a * (a * a))"
  proof -
    have "0 < (a * (a * a)) * m" using a3 m by simp
    then have "m / p \<le> m / ((a * (a * a)) * m)"
      using P_lo m p by (intro divide_left_mono) simp_all
    also have "\<dots> = 1 / (a * (a * a))" using m by simp
    finally show ?thesis .
  qed
  have dn: "1 / (b * (b * b)) \<le> m / p"
  proof -
    have "0 < (b * (b * b)) * m" using b3 m by simp
    then have "m / ((b * (b * b)) * m) \<le> m / p"
      using P_hi m p by (intro divide_left_mono) simp_all
    moreover have "m / ((b * (b * b)) * m) = 1 / (b * (b * b))" using m by simp
    ultimately show ?thesis by simp
  qed
  have "q \<le> b * (1 / (a * (a * a)))" using q_hi up b
    by (meson mult_left_mono order_trans less_imp_le)
  also have "\<dots> \<le> 1 + 1 / 2 ^ 50"
    using bound_numbers(1) a3 unfolding a_def b_def by (simp add: pos_divide_le_eq)
  finally have Q_hi: "q \<le> 1 + 1 / 2 ^ 50" .
  have "1 - 1 / 2 ^ 50 \<le> a * (1 / (b * (b * b)))"
    using bound_numbers(2) b3 unfolding a_def b_def by (simp add: pos_le_divide_eq)
  also have "\<dots> \<le> a * (m / p)" using dn a
    by (meson mult_left_mono less_imp_le)
  also have "\<dots> \<le> q" by (rule q_lo)
  finally have Q_lo: "1 - 1 / 2 ^ 50 \<le> q" .
  from Q_lo Q_hi have "\<bar>q - 1\<bar> \<le> 1 / 2 ^ 50" by linarith
  then show ?thesis unfolding q_def p_def s_def r_def .
qed

lemma fl_at:
  assumes y: "y = x * 2 ^ k" and lo: "2 ^ 52 \<le> \<bar>y\<bar>" and hi: "\<bar>y\<bar> < 2 ^ 53"
    and n1: "of_int n - 1 / 2 < y" and n2: "y < of_int n + 1 / 2"
  shows "fl x = of_int n / 2 ^ k"
proof -
  have p: "(2::real) powr of_int (- int k) = 1 / 2 ^ k"
    by (simp add: powr_minus powr_realpow divide_inverse)
  have "y = x / 2 powr of_int (- int k)" unfolding p using y by simp
  from fl_scaled[OF this lo hi] round_ties_even_unique[OF n1 n2] show ?thesis
    unfolding p by simp
qed

lemma fl_1: "fl 1 = 1" using fl_at[of "2 ^ 52" 1 52 "2 ^ 52"] by simp
lemma fl_2: "fl 2 = 2" using fl_at[of "2 ^ 52" 2 51 "2 ^ 52"] by simp
lemma fl_3: "fl 3 = 3" using fl_at[of "3 * 2 ^ 51" 3 51 "3 * 2 ^ 51"] by simp
lemma fl_3_2: "fl (3 / 2) = 3 / 2" using fl_at[of "3 * 2 ^ 51" "3 / 2" 52 "3 * 2 ^ 51"] by simp
lemma fl_1_2: "fl (1 / 2) = 1 / 2" using fl_at[of "2 ^ 52" "1 / 2" 53 "2 ^ 52"] by simp
lemma fl_m1_2: "fl (- (1 / 2)) = - (1 / 2)" using fl_at[of "- (2 ^ 52)" "- (1 / 2)" 53 "- (2 ^ 52)"] by simp
lemma fl_1_4: "fl (1 / 4) = 1 / 4" using fl_at[of "2 ^ 52" "1 / 4" 54 "2 ^ 52"] by simp

lemma sqrt_quarter: "sqrt (1 / 4) = 1 / 2"
  by (rule real_sqrt_unique) (simp_all add: power2_eq_square)

lemma sqrt_between:
  assumes c: "0 < c" and l: "l\<^sup>2 < a * c\<^sup>2" and h: "a * c\<^sup>2 < h\<^sup>2" and h0: "0 \<le> h"
  shows "l < sqrt a * c" and "sqrt a * c < h"
proof -
  have s: "sqrt (a * c\<^sup>2) = sqrt a * c" using c by (simp add: real_sqrt_mult)
  from l have "l < sqrt (a * c\<^sup>2)" by (rule real_less_rsqrt)
  then show "l < sqrt a * c" unfolding s .
  from h0 h have "sqrt (a * c\<^sup>2) < h" by (intro real_less_lsqrt) simp_all
  then show "sqrt a * c < h" unfolding s .
qed

lemma fl_sqrt_2: "fl (sqrt 2) = 6369051672525773 / 2 ^ 52"
proof -
  have one: "1 \<le> sqrt 2" by simp
  have two: "sqrt 2 < 2" by (rule real_less_lsqrt) simp_all
  have lo: "2 ^ 52 \<le> \<bar>sqrt 2 * 2 ^ 52\<bar>" using one by simp
  have hi: "\<bar>sqrt 2 * 2 ^ 52\<bar> < 2 ^ 53" using two by simp
  have n1: "of_int 6369051672525773 - 1 / 2 < sqrt 2 * 2 ^ 52"
    by (rule sqrt_between(1)[where h = "2 ^ 53"]) (simp_all add: power2_eq_square)
  have n2: "sqrt 2 * 2 ^ 52 < of_int 6369051672525773 + 1 / 2"
    by (rule sqrt_between(2)[where l = 0]) (simp_all add: power2_eq_square)
  from fl_at[OF refl lo hi n1 n2] show ?thesis by simp
qed

lemma fl_square:
  "fl ((6369051672525773 / 2 ^ 52) * (6369051672525773 / 2 ^ 52)) = 4503599627370497 / 2 ^ 51"
  using fl_at[of "6369051672525773 * 6369051672525773 / 2 ^ 53"
      "(6369051672525773 / 2 ^ 52) * (6369051672525773 / 2 ^ 52)" 51 4503599627370497]
  by simp

lemma fl_quotient: "fl (2 / (4503599627370497 / 2 ^ 51)) = 9007199254740990 / 2 ^ 53"
  using fl_at[of "2 ^ 105 / 4503599627370497" "2 / (4503599627370497 / 2 ^ 51)" 53 9007199254740990]
  by simp


lemma fl_nat:
  assumes "n < 2 ^ 53"
  shows "fl (real n) = real n"
proof (cases "n = 0")
  case True
  then show ?thesis by (simp add: fl_zero)
next
  case False
  then have "1 \<le> n" by simp
  from ex_power_ivl1[OF _ this, of 2] obtain j where j: "2 ^ j \<le> n" "n < 2 ^ (j + 1)" by auto
  from j(1) assms have "(2::nat) ^ j < 2 ^ 53" by (rule le_less_trans)
  then have j53: "j < 53" by (rule power_less_imp_less_exp[of 2 j 53, rotated]) simp
  define k where "k = 52 - j"
  have jk: "j + k = 52" using j53 by (simp add: k_def)
  have "(2::nat) ^ j * 2 ^ k \<le> n * 2 ^ k" using j(1) by simp
  then have lo: "(2::nat) ^ 52 \<le> n * 2 ^ k" by (simp add: power_add[symmetric] jk)
  have "n * 2 ^ k < (2::nat) ^ (j + 1) * 2 ^ k" using j(2) by simp
  moreover have "(2::nat) ^ (j + 1) * 2 ^ k = 2 ^ 53"
    unfolding power_add[symmetric] using jk by (intro arg_cong[where f = "\<lambda>e. 2 ^ e"]) simp
  ultimately have hi: "n * 2 ^ k < (2::nat) ^ 53" by (simp only:)
  have p: "(2::real) powr of_int (- int k) = 1 / 2 ^ k"
    by (simp add: powr_minus powr_realpow divide_inverse)
  have x: "real n = of_int (int (n * 2 ^ k)) * 2 powr of_int (- int k)"
    unfolding p by simp
  have "(2::int) ^ 52 \<le> \<bar>int (n * 2 ^ k)\<bar>" using lo by (metis abs_of_nat of_nat_le_iff of_nat_numeral of_nat_power)
  moreover have "\<bar>int (n * 2 ^ k)\<bar> < 2 ^ 53" using hi by (metis abs_of_nat of_nat_less_iff of_nat_numeral of_nat_power)
  ultimately show ?thesis using fl_exact[OF x] by simp
qed


lemma rounded_sum_bounds:
  assumes "0 \<le> m" and "\<forall>t \<in> set ts. 0 \<le> t"
  shows "(1 - 1 / 2 ^ 53) ^ length ts * (m + sum_list ts) \<le> foldl (\<lambda>m t. fl (m + t)) m ts"
    and "foldl (\<lambda>m t. fl (m + t)) m ts \<le> (1 + 1 / 2 ^ 53) ^ length ts * (m + sum_list ts)"
  using assms
proof (induction ts arbitrary: m)
  case Nil
  { case 1 then show ?case by simp }
  { case 2 then show ?case by simp }
next
  case (Cons t ts)
  define a :: real where "a = 1 - 1 / 2 ^ 53"
  define b :: real where "b = 1 + 1 / 2 ^ 53"
  have a: "0 \<le> a" "a \<le> 1" and b: "1 \<le> b" by (simp_all add: a_def b_def)
  { case 1
    then have mt: "0 \<le> m + t" and S: "0 \<le> sum_list ts" and r: "\<forall>t \<in> set ts. 0 \<le> t"
      by (simp_all add: sum_list_nonneg)
    from mt have m': "0 \<le> fl (m + t)" by (rule fl_nonneg)
    have lo: "a * (m + t) \<le> fl (m + t)" unfolding a_def using mt by (rule fl_between)
    have "a * (m + t + sum_list ts) \<le> a * (m + t) + sum_list ts"
      using a S by (simp add: algebra_simps mult_left_le_one_le)
    also have "\<dots> \<le> fl (m + t) + sum_list ts" using lo by simp
    finally have "a ^ length ts * (a * (m + t + sum_list ts)) \<le> a ^ length ts * (fl (m + t) + sum_list ts)"
      using a by (intro mult_left_mono) simp_all
    also have "\<dots> \<le> foldl (\<lambda>m t. fl (m + t)) (fl (m + t)) ts"
      using Cons.IH(1)[OF m' r] unfolding a_def .
    finally show ?case unfolding a_def by (simp add: algebra_simps) }
  { case 2
    then have mt: "0 \<le> m + t" and S: "0 \<le> sum_list ts" and r: "\<forall>t \<in> set ts. 0 \<le> t"
      by (simp_all add: sum_list_nonneg)
    from mt have m': "0 \<le> fl (m + t)" by (rule fl_nonneg)
    have hi: "fl (m + t) \<le> b * (m + t)" unfolding b_def using mt by (rule fl_between)
    have "sum_list ts \<le> b * sum_list ts" using b S by (simp add: mult_le_cancel_right1)
    with hi have "fl (m + t) + sum_list ts \<le> b * (m + t + sum_list ts)" by (simp add: algebra_simps)
    then have "b ^ length ts * (fl (m + t) + sum_list ts) \<le> b ^ length ts * (b * (m + t + sum_list ts))"
      using b by (intro mult_left_mono) simp_all
    moreover have "foldl (\<lambda>m t. fl (m + t)) (fl (m + t)) ts \<le> b ^ length ts * (fl (m + t) + sum_list ts)"
      using Cons.IH(2)[OF m' r] unfolding b_def .
    ultimately show ?case unfolding b_def by (simp add: algebra_simps) }
qed

lemma sqrt_le_factor:
  assumes "0 < y" and "1 \<le> c" and "x \<le> c * y" and "0 < x"
  shows "sqrt x \<le> c * sqrt y"
proof -
  have "sqrt x \<le> sqrt (c * y)" using assms(3) by simp
  also have "\<dots> = sqrt c * sqrt y" by (rule real_sqrt_mult)
  also have "\<dots> \<le> c * sqrt y"
  proof (intro mult_right_mono)
    have "c \<le> c\<^sup>2" using assms(2) by (simp add: power2_eq_square)
    then show "sqrt c \<le> c" using assms(2) by (intro real_le_lsqrt) simp_all
    show "0 \<le> sqrt y" using assms(1) by simp
  qed
  finally show ?thesis .
qed

lemma quotient_bounds:
  fixes sA sB c :: real
  defines "a \<equiv> 1 - 1 / 2 ^ 53" and "b \<equiv> 1 + 1 / 2 ^ 53"
  assumes sA: "0 < sA" and sB: "0 < sB" and c: "1 \<le> c"
    and AB: "sA \<le> c * sB" and BA: "sB \<le> c * sA"
  shows "a ^ 3 / (c * b ^ 3) \<le> fl (sA / fl (fl (sqrt sA) * fl (sqrt sB)))"
    and "fl (sA / fl (fl (sqrt sA) * fl (sqrt sB))) \<le> c * b ^ 3 / a ^ 3"
proof -
  have a: "0 < a" "a \<le> 1" and b: "1 \<le> b" "0 < b" by (simp_all add: a_def b_def)
  define ra where "ra = sqrt sA"
  define rb where "rb = sqrt sB"
  have ra: "0 < ra" and rb: "0 < rb" and raa: "ra * ra = sA"
    using sA sB by (simp_all add: ra_def rb_def)
  have rab: "ra \<le> c * rb" unfolding ra_def rb_def using sB c AB sA by (rule sqrt_le_factor)
  have rba: "rb \<le> c * ra" unfolding ra_def rb_def using sA c BA sB by (rule sqrt_le_factor)
  define fa where "fa = fl ra"
  define fb where "fb = fl rb"
  have fa: "0 < fa" "a * ra \<le> fa" "fa \<le> b * ra"
    using fl_pos[OF ra] fl_between[of ra] ra unfolding fa_def a_def b_def by simp_all
  have fb: "0 < fb" "a * rb \<le> fb" "fb \<le> b * rb"
    using fl_pos[OF rb] fl_between[of rb] rb unfolding fb_def a_def b_def by simp_all
  have fab: "0 < fa * fb" using fa(1) fb(1) by simp
  define P where "P = fl (fa * fb)"
  have P: "0 < P" "a * (fa * fb) \<le> P" "P \<le> b * (fa * fb)"
    using fl_pos[OF fab] fl_between[of "fa * fb"] fab unfolding P_def a_def b_def by simp_all
  have "(a * ra) * (a * rb) \<le> fa * fb"
    using fa fb a ra rb by (intro mult_mono) simp_all
  then have "a * ((a * ra) * (a * rb)) \<le> a * (fa * fb)" using a by simp
  with P(2) have P_lo: "a ^ 3 * (ra * rb) \<le> P" by (simp add: power3_eq_cube algebra_simps)
  have "fa * fb \<le> (b * ra) * (b * rb)"
    using fa fb b ra rb by (intro mult_mono) simp_all
  then have "b * (fa * fb) \<le> b * ((b * ra) * (b * rb))" using b by simp
  with P(3) have P_hi: "P \<le> b ^ 3 * (ra * rb)" by (simp add: power3_eq_cube algebra_simps)
  have a3: "0 < a ^ 3" and b3: "0 < b ^ 3" using a b by simp_all
  have rr: "0 < ra * rb" using ra rb by simp
  define Q where "Q = sA / P"
  have Q: "0 < Q" unfolding Q_def using sA P(1) by simp
  have "Q \<le> sA / (a ^ 3 * (ra * rb))"
    unfolding Q_def using P_lo sA a3 rr P(1) by (intro divide_left_mono) simp_all
  also have "\<dots> = ra / (a ^ 3 * rb)" using ra rb a3 raa[symmetric] by simp
  also have "\<dots> \<le> (c * rb) / (a ^ 3 * rb)"
    using rab a3 rb by (intro divide_right_mono) simp_all
  also have "\<dots> = c / a ^ 3" using rb by simp
  finally have Q_hi: "Q \<le> c / a ^ 3" .
  have c0: "0 < c" using c by simp
  have "1 / (c * b ^ 3) = ra / (b ^ 3 * (c * ra))" using ra c0 by simp
  also have "\<dots> \<le> ra / (b ^ 3 * rb)"
    using rba ra rb b3 c0 by (intro divide_left_mono mult_left_mono) simp_all
  also have "\<dots> = sA / (b ^ 3 * (ra * rb))" using ra rb raa[symmetric] by simp
  also have "\<dots> \<le> Q"
    unfolding Q_def using P_hi sA P(1) b3 rr by (intro divide_left_mono) simp_all
  finally have Q_lo: "1 / (c * b ^ 3) \<le> Q" .
  define r where "r = fl Q"
  have r: "a * Q \<le> r" "r \<le> b * Q"
    using fl_between[of Q] Q unfolding r_def a_def b_def by simp_all
  have aa: "a ^ 3 \<le> a" using a by (simp add: power3_eq_cube mult_le_one mult_left_le)
  have "1 * 1 \<le> b * b" using b by (intro mult_mono) simp_all
  then have "b * 1 \<le> b * (b * b)" using b by (intro mult_left_mono) simp_all
  then have bb: "b \<le> b ^ 3" by (simp add: power3_eq_cube)
  have "a ^ 3 / (c * b ^ 3) \<le> a / (c * b ^ 3)"
    using aa c0 b3 by (intro divide_right_mono) simp_all
  also have "\<dots> = a * (1 / (c * b ^ 3))" by simp
  also have "\<dots> \<le> a * Q" using Q_lo a by (intro mult_left_mono) simp_all
  also have "\<dots> \<le> r" by (rule r(1))
  finally show "a ^ 3 / (c * b ^ 3) \<le> fl (sA / fl (fl (sqrt sA) * fl (sqrt sB)))"
    unfolding r_def Q_def P_def fa_def fb_def ra_def rb_def .
  have "r \<le> b * Q" by (rule r(2))
  also have "\<dots> \<le> b * (c / a ^ 3)" using Q_hi b by (intro mult_left_mono) simp_all
  also have "\<dots> = c * b / a ^ 3" by simp
  also have "\<dots> \<le> c * b ^ 3 / a ^ 3"
    using bb c0 a3 by (intro divide_right_mono mult_left_mono) simp_all
  finally show "fl (sA / fl (fl (sqrt sA) * fl (sqrt sB))) \<le> c * b ^ 3 / a ^ 3"
    unfolding r_def Q_def P_def fa_def fb_def ra_def rb_def .
qed

section \<open>Properties of the similarity\<close>

lemma map_of_finite_vector: "map_of (finite_vector v) key = map_option Finite (map_of v key)"
  by (induction v) (auto simp add: finite_vector_def)

lemma get_or_zero_finite: "get_or_zero (finite_vector v) key = Finite (value_or_zero v key)"
  by (simp add: get_or_zero_def value_or_zero_def map_of_finite_vector truthy_number_def
      split: option.splits)

lemma firstLoop_finite_gen:
  "foldl (\<lambda>(dotProduct, magA) (key, valA).
              (js_add dotProduct (js_mul valA (get_or_zero (finite_vector vecB) key)),
               js_add magA (js_mul valA valA))) (Finite d, Finite m) (finite_vector vecA)
   = (Finite (sum_of_products vecB d vecA), Finite (sum_of_squares m (map snd vecA)))"
proof (induction vecA arbitrary: d m)
  case Nil
  then show ?case by (simp add: finite_vector_def sum_of_products_def sum_of_squares_def)
next
  case (Cons kv vecA)
  obtain k x where kv: "kv = (k, x)" by (cases kv)
  have fv: "finite_vector (kv # vecA) = (k, Finite x) # finite_vector vecA"
    by (simp add: finite_vector_def kv)
  show ?case
    unfolding fv using Cons.IH[of "fl (d + fl (x * value_or_zero vecB k))" "fl (m + fl (x * x))"]
    by (simp add: get_or_zero_finite kv sum_of_products_def sum_of_squares_def)
qed

lemma firstLoop_finite:
  "firstLoop (finite_vector vecA) (finite_vector vecB)
     = (Finite (sum_of_products vecB 0 vecA), Finite (sum_of_squares 0 (map snd vecA)))"
  unfolding firstLoop_def by (rule firstLoop_finite_gen)

lemma secondLoop_finite_gen:
  "foldl (\<lambda>magB valB. js_add magB (js_mul valB valB)) (Finite m) (map snd (finite_vector vecB))
     = Finite (sum_of_squares m (map snd vecB))"
  by (induction vecB arbitrary: m) (auto simp add: finite_vector_def sum_of_squares_def)

lemma secondLoop_finite:
  "secondLoop (finite_vector vecB) = Finite (sum_of_squares 0 (map snd vecB))"
  unfolding secondLoop_def by (rule secondLoop_finite_gen)

lemma sum_of_squares_gen:
  "0 \<le> m \<Longrightarrow>
   0 \<le> sum_of_squares m xs \<and> (sum_of_squares m xs = 0 \<longleftrightarrow> m = 0 \<and> (\<forall>x \<in> set xs. x = 0))"
proof (induction xs arbitrary: m)
  case Nil
  then show ?case by (simp add: sum_of_squares_def)
next
  case (Cons x xs)
  have sq: "0 \<le> fl (x * x)" by (rule fl_nonneg) simp
  with Cons.prems have n: "0 \<le> fl (m + fl (x * x))" by (intro fl_nonneg) simp
  have "fl (m + fl (x * x)) = 0 \<longleftrightarrow> m + fl (x * x) = 0" by (rule fl_eq_zero_iff)
  also have "\<dots> \<longleftrightarrow> m = 0 \<and> fl (x * x) = 0" using Cons.prems sq by linarith
  also have "\<dots> \<longleftrightarrow> m = 0 \<and> x = 0" by (simp add: fl_eq_zero_iff)
  finally have z: "fl (m + fl (x * x)) = 0 \<longleftrightarrow> m = 0 \<and> x = 0" .
  have s: "sum_of_squares m (x # xs) = sum_of_squares (fl (m + fl (x * x))) xs"
    by (simp add: sum_of_squares_def)
  from Cons.IH[OF n] z show ?case unfolding s by auto
qed

lemma sum_of_squares_nonneg: "0 \<le> sum_of_squares 0 xs"
  using sum_of_squares_gen[of 0 xs] by simp

lemma sum_of_squares_zero_iff: "sum_of_squares 0 xs = 0 \<longleftrightarrow> (\<forall>x \<in> set xs. x = 0)"
  using sum_of_squares_gen[of 0 xs] by simp

text \<open>The similarity of two vectors of finite numbers, on the reals.\<close>

lemma cosineSimilarity_finite:
  "cosineSimilarity (finite_vector vecA) (finite_vector vecB)
     = (if sum_of_squares 0 (map snd vecA) = 0 \<or> sum_of_squares 0 (map snd vecB) = 0 then Finite 0
        else Finite (fl (sum_of_products vecB 0 vecA
               / fl (fl (sqrt (sum_of_squares 0 (map snd vecA)))
                      * fl (sqrt (sum_of_squares 0 (map snd vecB)))))))"
proof -
  have a: "\<not> sum_of_squares 0 (map snd vecA) < 0" and b: "\<not> sum_of_squares 0 (map snd vecB) < 0"
    using sum_of_squares_nonneg[of "map snd vecA"] sum_of_squares_nonneg[of "map snd vecB"] by simp_all
  show ?thesis
    by (simp add: cosineSimilarity_def firstLoop_finite secondLoop_finite a b fl_eq_zero_iff)
qed

lemma sum_of_products_disjoint_gen:
  "\<forall>key \<in> fst ` set vecA. value_or_zero vecB key = 0 \<Longrightarrow> sum_of_products vecB 0 vecA = 0"
proof (induction vecA)
  case Nil
  then show ?case by (simp add: sum_of_products_def)
next
  case (Cons kv vecA)
  obtain k x where kv: "kv = (k, x)" by (cases kv)
  with Cons.prems have z: "value_or_zero vecB k = 0" by simp
  have "sum_of_products vecB 0 (kv # vecA) = sum_of_products vecB 0 vecA"
    by (simp add: sum_of_products_def kv z fl_zero)
  with Cons show ?case by simp
qed

lemma value_or_zero_absent: "key \<notin> fst ` set vec \<Longrightarrow> value_or_zero vec key = 0"
  by (simp add: value_or_zero_def map_of_eq_None_iff[THEN iffD2])

lemma value_or_zero_present:
  "distinct (map fst vec) \<Longrightarrow> (k, x) \<in> set vec \<Longrightarrow> value_or_zero vec k = x"
  by (simp add: value_or_zero_def)

lemma sum_of_products_disjoint:
  "fst ` set vecA \<inter> fst ` set vecB = {} \<Longrightarrow> sum_of_products vecB 0 vecA = 0"
  by (rule sum_of_products_disjoint_gen) (auto intro: value_or_zero_absent)

lemma sum_of_products_zero_values:
  "\<forall>x \<in> snd ` set vecB. x = 0 \<Longrightarrow> sum_of_products vecB 0 vecA = 0"
proof (rule sum_of_products_disjoint_gen, rule ballI)
  fix key assume z: "\<forall>x \<in> snd ` set vecB. x = 0"
  show "value_or_zero vecB key = 0"
  proof (cases "map_of vecB key")
    case None
    then show ?thesis by (simp add: value_or_zero_def)
  next
    case (Some x)
    then have "(key, x) \<in> set vecB" by (rule map_of_SomeD)
    with z have "x = 0" by force
    with Some show ?thesis by (simp add: value_or_zero_def)
  qed
qed

lemma sum_of_products_same_gen:
  "\<forall>(k, x) \<in> set vecA. value_or_zero vecB k = x \<Longrightarrow>
   sum_of_products vecB m vecA = sum_of_squares m (map snd vecA)"
proof (induction vecA arbitrary: m)
  case Nil
  then show ?case by (simp add: sum_of_products_def sum_of_squares_def)
next
  case (Cons kv vecA)
  obtain k x where kv: "kv = (k, x)" by (cases kv)
  with Cons.prems have z: "value_or_zero vecB k = x" by auto
  from Cons.prems have "\<forall>(k, x) \<in> set vecA. value_or_zero vecB k = x" by auto
  from Cons.IH[OF this, of "fl (m + fl (x * x))"] kv z show ?case
    by (simp add: sum_of_products_def sum_of_squares_def)
qed

lemma sum_of_products_same_entries:
  "distinct (map fst vecB) \<Longrightarrow> set vecA \<subseteq> set vecB \<Longrightarrow>
   sum_of_products vecB 0 vecA = sum_of_squares 0 (map snd vecA)"
  by (rule sum_of_products_same_gen) (auto intro: value_or_zero_present)

lemma sum_of_squares_as_sum:
  "sum_of_squares m xs = foldl (\<lambda>m t. fl (m + t)) m (map (\<lambda>x. fl (x * x)) xs)"
  by (simp add: sum_of_squares_def foldl_map)

lemma sum_of_squares_bounds:
  "(1 - 1 / 2 ^ 53) ^ length v * (\<Sum>e \<leftarrow> v. fl (snd e * snd e)) \<le> sum_of_squares 0 (map snd v)"
  "sum_of_squares 0 (map snd v) \<le> (1 + 1 / 2 ^ 53) ^ length v * (\<Sum>e \<leftarrow> v. fl (snd e * snd e))"
  using rounded_sum_bounds[of 0 "map (\<lambda>x. fl (x * x)) (map snd v)"]
  by (simp_all add: sum_of_squares_as_sum fl_nonneg comp_def)

lemma same_entries_sum:
  assumes "distinct (map fst vecA)" and "distinct (map fst vecB)" and "set vecA = set vecB"
  shows "(\<Sum>e \<leftarrow> vecA. f e) = (\<Sum>e \<leftarrow> vecB. (f e :: real))" and "length vecA = length vecB"
proof -
  from assms(1,2) have d: "distinct vecA" "distinct vecB" by (simp_all add: distinct_map)
  then show "(\<Sum>e \<leftarrow> vecA. f e) = (\<Sum>e \<leftarrow> vecB. f e)"
    using assms(3) by (simp add: sum_list_distinct_conv_sum_set)
  from d assms(3) show "length vecA = length vecB" by (metis distinct_card)
qed

lemma same_entries_bounds:
  fixes vecA vecB :: "(string \<times> real) list"
  assumes dA: "distinct (map fst vecA)" and dB: "distinct (map fst vecB)" and eq: "set vecA = set vecB"
    and nz: "\<exists>x \<in> snd ` set vecA. x \<noteq> 0"
  shows "\<exists>r. cosineSimilarity (finite_vector vecA) (finite_vector vecB) = Finite r
           \<and> ((1 - 1 / 2 ^ 53) / (1 + 1 / 2 ^ 53)) ^ (length vecA + 3) \<le> r
           \<and> r \<le> ((1 + 1 / 2 ^ 53) / (1 - 1 / 2 ^ 53)) ^ (length vecA + 3)"
proof -
  define a :: real where "a = 1 - 1 / 2 ^ 53"
  define b :: real where "b = 1 + 1 / 2 ^ 53"
  have a: "0 < a" and b: "0 < b" and ab: "a \<le> b" by (simp_all add: a_def b_def)
  define n where "n = length vecA"
  define S where "S = (\<Sum>e \<leftarrow> vecA. fl (snd e * snd e))"
  define sA where "sA = sum_of_squares 0 (map snd vecA)"
  define sB where "sB = sum_of_squares 0 (map snd vecB)"
  from same_entries_sum(1)[OF dA dB eq, of "\<lambda>e. fl (snd e * snd e)"] same_entries_sum(2)[OF dA dB eq]
  have SB: "(\<Sum>e \<leftarrow> vecB. fl (snd e * snd e)) = S" and nB: "length vecB = n"
    by (simp_all add: S_def n_def)
  have A: "a ^ n * S \<le> sA" "sA \<le> b ^ n * S"
    using sum_of_squares_bounds[of vecA] unfolding a_def b_def n_def S_def sA_def by simp_all
  have B: "a ^ n * S \<le> sB" "sB \<le> b ^ n * S"
    using sum_of_squares_bounds[of vecB] unfolding a_def b_def sB_def SB nB by simp_all
  from nz have nzA: "sA \<noteq> 0" unfolding sA_def by (simp add: sum_of_squares_zero_iff)
  from nz eq have "\<exists>x \<in> snd ` set vecB. x \<noteq> 0" by simp
  then have nzB: "sB \<noteq> 0" unfolding sB_def by (simp add: sum_of_squares_zero_iff)
  have pA: "0 < sA" using nzA sum_of_squares_nonneg[of "map snd vecA"] unfolding sA_def by simp
  have pB: "0 < sB" using nzB sum_of_squares_nonneg[of "map snd vecB"] unfolding sB_def by simp
  have an: "0 < a ^ n" and bn: "0 < b ^ n" using a b by simp_all
  define c where "c = (b / a) ^ n"
  have c: "1 \<le> c" unfolding c_def using a ab by (intro one_le_power) simp
  have cab: "c * a ^ n = b ^ n" unfolding c_def using a by (simp add: power_divide)
  have "sA \<le> b ^ n * S" by (rule A(2))
  also have "\<dots> = c * (a ^ n * S)" using cab by (simp add: algebra_simps)
  also have "\<dots> \<le> c * sB" using B(1) c by (intro mult_left_mono) simp_all
  finally have AB: "sA \<le> c * sB" .
  have "sB \<le> b ^ n * S" by (rule B(2))
  also have "\<dots> = c * (a ^ n * S)" using cab by (simp add: algebra_simps)
  also have "\<dots> \<le> c * sA" using A(1) c by (intro mult_left_mono) simp_all
  finally have BA: "sB \<le> c * sA" .
  have dot: "sum_of_products vecB 0 vecA = sA"
    unfolding sA_def using dB eq by (intro sum_of_products_same_entries) simp_all
  define r where "r = fl (sA / fl (fl (sqrt sA) * fl (sqrt sB)))"
  have cs: "cosineSimilarity (finite_vector vecA) (finite_vector vecB) = Finite r"
    using nzA nzB dot unfolding r_def sA_def sB_def by (simp add: cosineSimilarity_finite)
  from quotient_bounds[OF pA pB c AB BA]
  have lo: "a ^ 3 / (c * b ^ 3) \<le> r" and hi: "r \<le> c * b ^ 3 / a ^ 3"
    unfolding r_def a_def b_def by simp_all
  have "(a / b) ^ (n + 3) = a ^ 3 / (c * b ^ 3)"
    unfolding c_def using a b by (simp add: power_add power_divide)
  with lo have LO: "(a / b) ^ (n + 3) \<le> r" by simp
  have "(b / a) ^ (n + 3) = c * b ^ 3 / a ^ 3"
    unfolding c_def using a b by (simp add: power_add power_divide)
  with hi have HI: "r \<le> (b / a) ^ (n + 3)" by simp
  from cs LO HI show ?thesis unfolding a_def b_def n_def by blast
qed

lemma update_finite_vector:
  "AList.update key (Finite x) (finite_vector v) = finite_vector (AList.update key x v)"
  by (induction v) (auto simp add: finite_vector_def)

lemma sum_of_products_zero_left_gen:
  "\<forall>x \<in> snd ` set vecA. x = 0 \<Longrightarrow> sum_of_products vecB 0 vecA = 0"
proof (induction vecA)
  case Nil
  then show ?case by (simp add: sum_of_products_def)
next
  case (Cons kv vecA)
  obtain k x where kv: "kv = (k, x)" by (cases kv)
  with Cons.prems have z: "x = 0" by simp
  have "sum_of_products vecB 0 (kv # vecA) = sum_of_products vecB 0 vecA"
    by (simp add: sum_of_products_def kv z fl_zero)
  with Cons show ?case by simp
qed

lemma skipped_quotient:
  assumes "(\<forall>x \<in> snd ` set vecA. x = 0) \<or> (\<forall>x \<in> snd ` set vecB. x = 0)"
  shows "(case firstLoop (finite_vector vecA) (finite_vector vecB) of
            (dotProduct, magA) \<Rightarrow>
              js_div dotProduct (js_mul (Math_sqrt magA) (Math_sqrt (secondLoop (finite_vector vecB)))))
         = NaN"
proof -
  have na: "\<not> sum_of_squares 0 (map snd vecA) < 0" and nb: "\<not> sum_of_squares 0 (map snd vecB) < 0"
    using sum_of_squares_nonneg[of "map snd vecA"] sum_of_squares_nonneg[of "map snd vecB"] by simp_all
  from assms have d: "sum_of_products vecB 0 vecA = 0"
    by (auto intro: sum_of_products_zero_left_gen sum_of_products_zero_values)
  from assms have "sum_of_squares 0 (map snd vecA) = 0 \<or> sum_of_squares 0 (map snd vecB) = 0"
    by (auto simp add: sum_of_squares_zero_iff)
  then have "fl (fl (sqrt (sum_of_squares 0 (map snd vecA))) * fl (sqrt (sum_of_squares 0 (map snd vecB)))) = 0"
    by (auto simp add: fl_zero)
  then show ?thesis
    by (simp add: firstLoop_finite secondLoop_finite na nb d)
qed

lemma two_tokens:
  "cosineSimilarity [(''alpha'', Finite 1), (''beta'', Finite 1)] [(''alpha'', Finite 1), (''beta'', Finite 1)]
     = Finite (9007199254740990 / 2 ^ 53)"
proof -
  have f: "firstLoop [(''alpha'', Finite 1), (''beta'', Finite 1)] [(''alpha'', Finite 1), (''beta'', Finite 1)]
      = (Finite 2, Finite 2)"
    by (simp add: firstLoop_def get_or_zero_def truthy_number_def fl_1 fl_2)
  have s: "secondLoop [(''alpha'', Finite 1), (''beta'', Finite 1)] = Finite 2"
    by (simp add: secondLoop_def fl_1 fl_2)
  have "cosineSimilarity [(''alpha'', Finite 1), (''beta'', Finite 1)] [(''alpha'', Finite 1), (''beta'', Finite 1)]
      = js_div (Finite 2) (js_mul (Math_sqrt (Finite 2)) (Math_sqrt (Finite 2)))"
    unfolding cosineSimilarity_def f s by simp
  also have "\<dots> = js_div (Finite 2)
         (js_mul (Finite (6369051672525773 / 2 ^ 52)) (Finite (6369051672525773 / 2 ^ 52)))"
    by (simp add: fl_sqrt_2)
  also have "\<dots> = js_div (Finite 2) (Finite (4503599627370497 / 2 ^ 51))"
    by (simp only: js_mul.simps fl_square)
  also have "\<dots> = Finite (fl (2 / (4503599627370497 / 2 ^ 51)))"
    by simp
  also have "\<dots> = Finite (9007199254740990 / 2 ^ 53)"
    by (simp only: fl_quotient)
  finally show ?thesis .
qed

lemma vector_of_two_tokens:
  "vectorize (tokenize ''alpha beta'') = [(''alpha'', Finite 1), (''beta'', Finite 1)]"
proof -
  have "tokenize ''alpha beta'' = [''alpha'', ''beta'']" by code_simp
  then show ?thesis
    by (simp add: vectorize_def get_or_zero_def fl_1)
qed

text \<open>
  C9, as the claim states it, fails: the similarity of a vector with itself is not always
  exactly 1. For the vector of a file with two different tokens, each once (the content
  \<open>alpha beta\<close>), the squared magnitude is 2, the rounded square root of 2 times itself
  is \<open>2 + 2\<^sup>-\<^sup>5\<^sup>1\<close>, and the quotient rounds to \<open>1 - 2\<^sup>-\<^sup>5\<^sup>2\<close>, the number JavaScript prints
  as 0.9999999999999998.
\<close>

theorem cosineSimilarity_identical_not_one:
  "vectorize (tokenize ''alpha beta'') = [(''alpha'', Finite 1), (''beta'', Finite 1)]
   \<and> cosineSimilarity [(''alpha'', Finite 1), (''beta'', Finite 1)] [(''alpha'', Finite 1), (''beta'', Finite 1)]
     = Finite (9007199254740990 / 2 ^ 53)
   \<and> Finite (9007199254740990 / 2 ^ 53) \<noteq> Finite 1"
  by (simp add: vector_of_two_tokens two_tokens)

lemma update_map_snd:
  "map (\<lambda>(key, n). (key, f n)) (AList.update k x v) = AList.update k (f x) (map (\<lambda>(key, n). (key, f n)) v)"
  by (induction v) auto

lemma update_count_vector:
  "AList.update key (Finite (real n)) (count_vector v) = count_vector (AList.update key n v)"
  by (simp add: count_vector_def update_finite_vector update_map_snd)

lemma map_of_reals:
  "map_of (map (\<lambda>(key, n). (key, real n)) v) key = map_option real (map_of v key)"
  by (induction v) auto

lemma get_or_zero_count_vector:
  "get_or_zero (count_vector v) key = Finite (real (case map_of v key of None \<Rightarrow> 0 | Some n \<Rightarrow> n))"
  by (simp add: count_vector_def get_or_zero_finite value_or_zero_def map_of_reals split: option.splits)

lemma set_update_cases:
  "(k, y) \<in> set (AList.update a x v) \<Longrightarrow> (k, y) \<in> set v \<or> (k = a \<and> y = x)"
  by (induction v) (auto split: if_splits)

lemma vectorize_histogram_gen:
  "length ts < 2 ^ 53 \<Longrightarrow> \<forall>n \<in> snd ` set v. n + length ts < 2 ^ 53 \<Longrightarrow>
   foldl (\<lambda>vec token. AList.update token (js_add (get_or_zero vec token) (Finite 1)) vec)
      (count_vector v) ts
   = count_vector
      (foldl (\<lambda>v token. AList.update token (Suc (case map_of v token of None \<Rightarrow> 0 | Some n \<Rightarrow> n)) v)
         v ts)"
proof (induction ts arbitrary: v)
  case Nil
  then show ?case by simp
next
  case (Cons a ts)
  define c where "c = (case map_of v a of None \<Rightarrow> 0 | Some n \<Rightarrow> n)"
  have "c + length (a # ts) < 2 ^ 53"
  proof (cases "map_of v a")
    case None
    then show ?thesis using Cons.prems(1) by (simp add: c_def)
  next
    case (Some n)
    then have "(a, n) \<in> set v" by (rule map_of_SomeD)
    then have "n \<in> snd ` set v" by force
    with Cons.prems(2) have "n + length (a # ts) < 2 ^ 53" by blast
    with Some show ?thesis by (simp add: c_def)
  qed
  then have c: "Suc c + length ts < 2 ^ 53" by simp
  then have "Suc c < 2 ^ 53" by simp
  from fl_nat[OF this] have f: "fl (real c + 1) = real (Suc c)" by (simp add: add.commute)
  have "js_add (get_or_zero (count_vector v) a) (Finite 1) = Finite (real (Suc c))"
    unfolding get_or_zero_count_vector c_def[symmetric] js_add.simps f ..
  then have step: "AList.update a (js_add (get_or_zero (count_vector v) a) (Finite 1)) (count_vector v)
      = count_vector (AList.update a (Suc c) v)"
    by (simp only: update_count_vector)
  have l: "length ts < 2 ^ 53" using Cons.prems(1) by simp
  have b: "\<forall>n \<in> snd ` set (AList.update a (Suc c) v). n + length ts < 2 ^ 53"
  proof
    fix n assume "n \<in> snd ` set (AList.update a (Suc c) v)"
    then obtain k where "(k, n) \<in> set (AList.update a (Suc c) v)" by force
    from set_update_cases[OF this] have "n \<in> snd ` set v \<or> n = Suc c" by force
    with Cons.prems(2) c show "n + length ts < 2 ^ 53" by auto
  qed
  from Cons.IH[OF l b] show ?case by (simp add: step c_def)
qed

lemma vectorize_histogram:
  "length tokens < 2 ^ 53 \<Longrightarrow> vectorize tokens = count_vector (histogram tokens)"
  unfolding vectorize_def histogram_def
  using vectorize_histogram_gen[of tokens "[]"] by (simp add: count_vector_def finite_vector_def)

lemma histogram_distinct_gen:
  "distinct (map fst v) \<Longrightarrow>
   distinct (map fst (foldl (\<lambda>v token. AList.update token (Suc (case map_of v token of None \<Rightarrow> 0 | Some n \<Rightarrow> n)) v)
         v ts))"
  by (induction ts arbitrary: v) (simp_all add: distinct_update)

lemma histogram_distinct: "distinct (map fst (histogram tokens))"
  unfolding histogram_def by (rule histogram_distinct_gen) simp

lemma histogram_map_of_gen:
  "map_of (foldl (\<lambda>v token. AList.update token (Suc (case map_of v token of None \<Rightarrow> 0 | Some n \<Rightarrow> n)) v)
         v ts) t
   = (if t \<in> set ts then Some ((case map_of v t of None \<Rightarrow> 0 | Some n \<Rightarrow> n) + count_list ts t)
      else map_of v t)"
proof (induction ts arbitrary: v)
  case Nil
  then show ?case by simp
next
  case (Cons a ts)
  show ?case
    by (simp add: Cons.IH update_conv' count_notin)
qed

lemma histogram_map_of:
  "map_of (histogram tokens) t = (if t \<in> set tokens then Some (count_list tokens t) else None)"
  unfolding histogram_def using histogram_map_of_gen[of "[]" tokens t] by simp

lemma histogram_entries:
  "(t, n) \<in> set (histogram tokens) \<longleftrightarrow> t \<in> set tokens \<and> n = count_list tokens t"
proof -
  have "(t, n) \<in> set (histogram tokens) \<longleftrightarrow> map_of (histogram tokens) t = Some n"
    using histogram_distinct[of tokens] by simp
  then show ?thesis by (auto simp add: histogram_map_of)
qed

lemma histogram_keys: "fst ` set (histogram tokens) = set tokens"
proof
  show "fst ` set (histogram tokens) \<subseteq> set tokens"
    by (auto simp add: histogram_entries)
  show "set tokens \<subseteq> fst ` set (histogram tokens)"
  proof
    fix t assume "t \<in> set tokens"
    then have "(t, count_list tokens t) \<in> set (histogram tokens)" by (simp add: histogram_entries)
    then show "t \<in> fst ` set (histogram tokens)" by force
  qed
qed

lemma histogram_positive: "n \<in> snd ` set (histogram tokens) \<Longrightarrow> 0 < n"
proof -
  assume "n \<in> snd ` set (histogram tokens)"
  then obtain t where "(t, n) \<in> set (histogram tokens)" by force
  then have "t \<in> set tokens" "n = count_list tokens t" by (simp_all add: histogram_entries)
  then show ?thesis using count_list_0_iff[of tokens t] by auto
qed

lemma histogram_same_counts:
  "\<forall>t. count_list tokensA t = count_list tokensB t \<Longrightarrow> set (histogram tokensA) = set (histogram tokensB)"
proof -
  assume c: "\<forall>t. count_list tokensA t = count_list tokensB t"
  then have "set tokensA = set tokensB"
    by (metis count_list_0_iff subsetI subset_antisym)
  with c show ?thesis by (auto simp add: histogram_entries)
qed

lemma vectorize_as_finite:
  assumes "length tokens < 2 ^ 32"
  shows "vectorize tokens = finite_vector (map (\<lambda>(key, n). (key, real n)) (histogram tokens))"
proof -
  have "(2::nat) ^ 32 \<le> 2 ^ 53" by simp
  with assms have "length tokens < 2 ^ 53" by (rule less_le_trans)
  from vectorize_histogram[OF this] show ?thesis by (simp add: count_vector_def)
qed

lemma reals_keys: "map fst (map (\<lambda>(key, n). (key, real n)) v) = map fst v"
  by (induction v) auto

lemma reals_key_set: "fst ` set (map (\<lambda>(key, n). (key, real n)) v) = fst ` set v"
  by (induction v) auto

lemma reals_values: "snd ` set (map (\<lambda>(key, n). (key, real n)) v) = real ` snd ` set v"
  by (induction v) auto

lemma histogram_nonzero:
  "tokens \<noteq> [] \<Longrightarrow> \<exists>x \<in> snd ` set (map (\<lambda>(key, n). (key, real n)) (histogram tokens)). x \<noteq> 0"
proof -
  assume "tokens \<noteq> []"
  then obtain t where t: "t \<in> set tokens" by (cases tokens) auto
  then have "(t, count_list tokens t) \<in> set (histogram tokens)" by (simp add: histogram_entries)
  then have m: "count_list tokens t \<in> snd ` set (histogram tokens)" by force
  from histogram_positive[OF m] have "real (count_list tokens t) \<noteq> 0" by simp
  with m show ?thesis unfolding reals_values by blast
qed

lemma histogram_all_nonzero:
  "x \<in> snd ` set (map (\<lambda>(key, n). (key, real n)) (histogram tokens)) \<Longrightarrow> x \<noteq> 0"
proof -
  assume "x \<in> snd ` set (map (\<lambda>(key, n). (key, real n)) (histogram tokens))"
  then obtain n where n: "n \<in> snd ` set (histogram tokens)" and x: "x = real n"
    unfolding reals_values by blast
  from histogram_positive[OF n] x show "x \<noteq> 0" by simp
qed

lemma histogram_empty: "histogram tokens = [] \<longleftrightarrow> tokens = []"
  using histogram_keys[of tokens] by (cases "histogram tokens") (auto simp add: histogram_def)

text \<open>
  C9, amended. A token array has fewer than \<open>2\<^sup>3\<^sup>2\<close> elements, and the vector \<open>_vectorize\<close>
  builds from it holds the exact counts of its tokens. For every pair of such vectors
  \<open>_cosineSimilarity\<close> returns a finite number, never \<open>NaN\<close>. It is exactly 0 when the two
  token lists share no token. A vector has zero magnitude only when there are no tokens,
  and then the similarity is 0: the guard returns before the division, which would be
  \<open>0 / 0\<close>, that is \<open>NaN\<close>. The similarity of a vector that is not empty with itself is
  the rounded quotient of its squared magnitude by the rounded square of the rounded root
  of that magnitude, which differs from 1 by at most \<open>2\<^sup>-\<^sup>5\<^sup>0\<close>; for two vectors that hold the
  same counts, inserted in whatever order, it lies between \<open>q\<^sup>n\<^sup>+\<^sup>3\<close> and \<open>1 / q\<^sup>n\<^sup>+\<^sup>3\<close> for
  \<open>q = (1 - 2\<^sup>-\<^sup>5\<^sup>3) / (1 + 2\<^sup>-\<^sup>5\<^sup>3)\<close> and \<open>n\<close> the number of entries. In exact arithmetic
  all these values are 1; in binary64 they need not be.
\<close>

theorem cosineSimilarity_cases:
  "length tokensA < 2 ^ 32 \<and> length tokensB < 2 ^ 32 \<longrightarrow>
     (\<exists>r. cosineSimilarity (vectorize tokensA) (vectorize tokensB) = Finite r)
   \<and> (set tokensA \<inter> set tokensB = {}
        \<longrightarrow> cosineSimilarity (vectorize tokensA) (vectorize tokensB) = Finite 0)
   \<and> (secondLoop (vectorize tokensA) = Finite 0 \<longleftrightarrow> tokensA = [])
   \<and> (tokensA = [] \<or> tokensB = []
        \<longrightarrow> cosineSimilarity (vectorize tokensA) (vectorize tokensB) = Finite 0
            \<and> (case firstLoop (vectorize tokensA) (vectorize tokensB) of
                  (dotProduct, magA) \<Rightarrow>
                    js_div dotProduct (js_mul (Math_sqrt magA) (Math_sqrt (secondLoop (vectorize tokensB)))))
                = NaN)
   \<and> (tokensA \<noteq> []
        \<longrightarrow> (\<exists>m. secondLoop (vectorize tokensA) = Finite m
               \<and> cosineSimilarity (vectorize tokensA) (vectorize tokensA)
                   = Finite (fl (m / fl (fl (sqrt m) * fl (sqrt m))))
               \<and> \<bar>fl (m / fl (fl (sqrt m) * fl (sqrt m))) - 1\<bar> \<le> 1 / 2 ^ 50))
   \<and> (tokensA \<noteq> [] \<and> (\<forall>t. count_list tokensA t = count_list tokensB t)
        \<longrightarrow> (\<exists>r. cosineSimilarity (vectorize tokensA) (vectorize tokensB) = Finite r
               \<and> ((1 - 1 / 2 ^ 53) / (1 + 1 / 2 ^ 53)) ^ (length (vectorize tokensA) + 3) \<le> r
               \<and> r \<le> ((1 + 1 / 2 ^ 53) / (1 - 1 / 2 ^ 53)) ^ (length (vectorize tokensA) + 3)))"
proof
  assume len: "length tokensA < 2 ^ 32 \<and> length tokensB < 2 ^ 32"
  define a where "a = map (\<lambda>(key, n). (key, real n)) (histogram tokensA)"
  define b where "b = map (\<lambda>(key, n). (key, real n)) (histogram tokensB)"
  have A: "vectorize tokensA = finite_vector a" and B: "vectorize tokensB = finite_vector b"
    using len by (simp_all add: vectorize_as_finite a_def b_def)
  have dA: "distinct (map fst a)" and dB: "distinct (map fst b)"
    unfolding a_def b_def reals_keys by (rule histogram_distinct)+
  have kA: "fst ` set a = set tokensA" and kB: "fst ` set b = set tokensB"
    unfolding a_def b_def reals_key_set by (rule histogram_keys)+
  have eA: "a = [] \<longleftrightarrow> tokensA = []" and eB: "b = [] \<longleftrightarrow> tokensB = []"
    by (simp_all add: a_def b_def histogram_empty)
  have nzA: "\<And>x. x \<in> snd ` set a \<Longrightarrow> x \<noteq> 0"
    unfolding a_def by (rule histogram_all_nonzero)
  have 1: "\<exists>r. cosineSimilarity (vectorize tokensA) (vectorize tokensB) = Finite r"
    unfolding A B by (simp add: cosineSimilarity_finite)
  have 2: "set tokensA \<inter> set tokensB = {}
        \<longrightarrow> cosineSimilarity (vectorize tokensA) (vectorize tokensB) = Finite 0"
  proof
    assume "set tokensA \<inter> set tokensB = {}"
    then have "fst ` set a \<inter> fst ` set b = {}" unfolding kA kB .
    from sum_of_products_disjoint[OF this]
    show "cosineSimilarity (vectorize tokensA) (vectorize tokensB) = Finite 0"
      unfolding A B by (simp add: cosineSimilarity_finite fl_zero)
  qed
  have 3: "secondLoop (vectorize tokensA) = Finite 0 \<longleftrightarrow> tokensA = []"
  proof
    assume "secondLoop (vectorize tokensA) = Finite 0"
    then have "\<forall>x \<in> snd ` set a. x = 0"
      unfolding A by (simp add: secondLoop_finite sum_of_squares_zero_iff)
    with nzA have "a = []" by (cases a) force+
    then show "tokensA = []" using eA by simp
  next
    assume "tokensA = []"
    then have "a = []" using eA by simp
    then show "secondLoop (vectorize tokensA) = Finite 0"
      unfolding A by (simp add: secondLoop_finite sum_of_squares_def)
  qed
  have 4: "tokensA = [] \<or> tokensB = []
        \<longrightarrow> cosineSimilarity (vectorize tokensA) (vectorize tokensB) = Finite 0
            \<and> (case firstLoop (vectorize tokensA) (vectorize tokensB) of
                  (dotProduct, magA) \<Rightarrow>
                    js_div dotProduct (js_mul (Math_sqrt magA) (Math_sqrt (secondLoop (vectorize tokensB)))))
                = NaN"
  proof
    assume "tokensA = [] \<or> tokensB = []"
    then have "a = [] \<or> b = []" using eA eB by simp
    then have z: "(\<forall>x \<in> snd ` set a. x = 0) \<or> (\<forall>x \<in> snd ` set b. x = 0)" by auto
    then have "sum_of_squares 0 (map snd a) = 0 \<or> sum_of_squares 0 (map snd b) = 0"
      by (auto simp add: sum_of_squares_zero_iff)
    then have "cosineSimilarity (finite_vector a) (finite_vector b) = Finite 0"
      by (auto simp add: cosineSimilarity_finite)
    with skipped_quotient[OF z]
    show "cosineSimilarity (vectorize tokensA) (vectorize tokensB) = Finite 0
            \<and> (case firstLoop (vectorize tokensA) (vectorize tokensB) of
                  (dotProduct, magA) \<Rightarrow>
                    js_div dotProduct (js_mul (Math_sqrt magA) (Math_sqrt (secondLoop (vectorize tokensB)))))
                = NaN"
      unfolding A B by simp
  qed
  have 5: "tokensA \<noteq> []
        \<longrightarrow> (\<exists>m. secondLoop (vectorize tokensA) = Finite m
               \<and> cosineSimilarity (vectorize tokensA) (vectorize tokensA)
                   = Finite (fl (m / fl (fl (sqrt m) * fl (sqrt m))))
               \<and> \<bar>fl (m / fl (fl (sqrt m) * fl (sqrt m))) - 1\<bar> \<le> 1 / 2 ^ 50)"
  proof
    assume ne: "tokensA \<noteq> []"
    define m where "m = sum_of_squares 0 (map snd a)"
    from histogram_nonzero[OF ne] have "\<exists>x \<in> snd ` set a. x \<noteq> 0" unfolding a_def .
    then have nz: "m \<noteq> 0" unfolding m_def by (simp add: sum_of_squares_zero_iff)
    with sum_of_squares_nonneg[of "map snd a"] have pos: "0 < m" unfolding m_def by simp
    have dot: "sum_of_products a 0 a = m"
      unfolding m_def using dA by (intro sum_of_products_same_entries) simp_all
    have "secondLoop (vectorize tokensA) = Finite m" unfolding A by (simp add: secondLoop_finite m_def)
    moreover have "cosineSimilarity (vectorize tokensA) (vectorize tokensA)
                 = Finite (fl (m / fl (fl (sqrt m) * fl (sqrt m))))"
      unfolding A using nz dot unfolding m_def by (simp add: cosineSimilarity_finite)
    moreover have "\<bar>fl (m / fl (fl (sqrt m) * fl (sqrt m))) - 1\<bar> \<le> 1 / 2 ^ 50"
      by (rule normalised_quotient_near_one[OF pos])
    ultimately show "\<exists>m. secondLoop (vectorize tokensA) = Finite m
               \<and> cosineSimilarity (vectorize tokensA) (vectorize tokensA)
                   = Finite (fl (m / fl (fl (sqrt m) * fl (sqrt m))))
               \<and> \<bar>fl (m / fl (fl (sqrt m) * fl (sqrt m))) - 1\<bar> \<le> 1 / 2 ^ 50"
      by blast
  qed
  have 6: "tokensA \<noteq> [] \<and> (\<forall>t. count_list tokensA t = count_list tokensB t)
        \<longrightarrow> (\<exists>r. cosineSimilarity (vectorize tokensA) (vectorize tokensB) = Finite r
               \<and> ((1 - 1 / 2 ^ 53) / (1 + 1 / 2 ^ 53)) ^ (length (vectorize tokensA) + 3) \<le> r
               \<and> r \<le> ((1 + 1 / 2 ^ 53) / (1 - 1 / 2 ^ 53)) ^ (length (vectorize tokensA) + 3))"
  proof
    assume h: "tokensA \<noteq> [] \<and> (\<forall>t. count_list tokensA t = count_list tokensB t)"
    then have "set (histogram tokensA) = set (histogram tokensB)" by (intro histogram_same_counts) simp
    then have eq: "set a = set b" unfolding a_def b_def by simp
    from h histogram_nonzero[of tokensA] have nz: "\<exists>x \<in> snd ` set a. x \<noteq> 0" unfolding a_def by simp
    have l: "length (vectorize tokensA) = length a" unfolding A by (simp add: finite_vector_def)
    from same_entries_bounds[OF dA dB eq nz]
    show "\<exists>r. cosineSimilarity (vectorize tokensA) (vectorize tokensB) = Finite r
               \<and> ((1 - 1 / 2 ^ 53) / (1 + 1 / 2 ^ 53)) ^ (length (vectorize tokensA) + 3) \<le> r
               \<and> r \<le> ((1 + 1 / 2 ^ 53) / (1 - 1 / 2 ^ 53)) ^ (length (vectorize tokensA) + 3)"
      unfolding A B l[unfolded A] .
  qed
  from 1 2 3 4 5 6
  show "(\<exists>r. cosineSimilarity (vectorize tokensA) (vectorize tokensB) = Finite r)
   \<and> (set tokensA \<inter> set tokensB = {}
        \<longrightarrow> cosineSimilarity (vectorize tokensA) (vectorize tokensB) = Finite 0)
   \<and> (secondLoop (vectorize tokensA) = Finite 0 \<longleftrightarrow> tokensA = [])
   \<and> (tokensA = [] \<or> tokensB = []
        \<longrightarrow> cosineSimilarity (vectorize tokensA) (vectorize tokensB) = Finite 0
            \<and> (case firstLoop (vectorize tokensA) (vectorize tokensB) of
                  (dotProduct, magA) \<Rightarrow>
                    js_div dotProduct (js_mul (Math_sqrt magA) (Math_sqrt (secondLoop (vectorize tokensB)))))
                = NaN)
   \<and> (tokensA \<noteq> []
        \<longrightarrow> (\<exists>m. secondLoop (vectorize tokensA) = Finite m
               \<and> cosineSimilarity (vectorize tokensA) (vectorize tokensA)
                   = Finite (fl (m / fl (fl (sqrt m) * fl (sqrt m))))
               \<and> \<bar>fl (m / fl (fl (sqrt m) * fl (sqrt m))) - 1\<bar> \<le> 1 / 2 ^ 50))
   \<and> (tokensA \<noteq> [] \<and> (\<forall>t. count_list tokensA t = count_list tokensB t)
        \<longrightarrow> (\<exists>r. cosineSimilarity (vectorize tokensA) (vectorize tokensB) = Finite r
               \<and> ((1 - 1 / 2 ^ 53) / (1 + 1 / 2 ^ 53)) ^ (length (vectorize tokensA) + 3) \<le> r
               \<and> r \<le> ((1 + 1 / 2 ^ 53) / (1 - 1 / 2 ^ 53)) ^ (length (vectorize tokensA) + 3)))"
    by blast
qed

theorem cosineSimilarity_cases_witness:
  "cosineSimilarity (vectorize [''alpha'']) (vectorize [''beta'']) = Finite 0
   \<and> cosineSimilarity (vectorize []) (vectorize [''alpha'']) = Finite 0
   \<and> (case firstLoop (vectorize []) (vectorize [''alpha'']) of
         (dotProduct, magA) \<Rightarrow>
           js_div dotProduct (js_mul (Math_sqrt magA) (Math_sqrt (secondLoop (vectorize [''alpha''])))))
       = NaN
   \<and> (\<exists>m. cosineSimilarity (vectorize [''alpha'', ''beta'']) (vectorize [''alpha'', ''beta''])
             = Finite (fl (m / fl (fl (sqrt m) * fl (sqrt m))))
          \<and> \<bar>fl (m / fl (fl (sqrt m) * fl (sqrt m))) - 1\<bar> \<le> 1 / 2 ^ 50)
   \<and> (\<exists>r. cosineSimilarity (vectorize [''alpha'', ''beta'', ''alpha''])
               (vectorize [''beta'', ''alpha'', ''alpha'']) = Finite r
          \<and> ((1 - 1 / 2 ^ 53) / (1 + 1 / 2 ^ 53))
               ^ (length (vectorize [''alpha'', ''beta'', ''alpha'']) + 3) \<le> r
          \<and> r \<le> ((1 + 1 / 2 ^ 53) / (1 - 1 / 2 ^ 53))
               ^ (length (vectorize [''alpha'', ''beta'', ''alpha'']) + 3))"
proof -
  have 1: "cosineSimilarity (vectorize [''alpha'']) (vectorize [''beta'']) = Finite 0"
    using cosineSimilarity_cases[of "[''alpha'']" "[''beta'']"] by simp
  have 2: "cosineSimilarity (vectorize []) (vectorize [''alpha'']) = Finite 0
   \<and> (case firstLoop (vectorize []) (vectorize [''alpha'']) of
         (dotProduct, magA) \<Rightarrow>
           js_div dotProduct (js_mul (Math_sqrt magA) (Math_sqrt (secondLoop (vectorize [''alpha''])))))
       = NaN"
    using cosineSimilarity_cases[of "[]" "[''alpha'']"] by simp
  have l3: "length [''alpha'', ''beta''] < (2::nat) ^ 32 \<and> length [''alpha'', ''beta''] < (2::nat) ^ 32"
    and n3: "[''alpha'', ''beta''] \<noteq> []"
    by simp_all
  have 3: "\<exists>m. cosineSimilarity (vectorize [''alpha'', ''beta'']) (vectorize [''alpha'', ''beta''])
             = Finite (fl (m / fl (fl (sqrt m) * fl (sqrt m))))
          \<and> \<bar>fl (m / fl (fl (sqrt m) * fl (sqrt m))) - 1\<bar> \<le> 1 / 2 ^ 50"
    using cosineSimilarity_cases[of "[''alpha'', ''beta'']" "[''alpha'', ''beta'']"] l3 n3 by blast
  have h4: "length [''alpha'', ''beta'', ''alpha''] < (2::nat) ^ 32
        \<and> length [''beta'', ''alpha'', ''alpha''] < (2::nat) ^ 32"
    and c4: "[''alpha'', ''beta'', ''alpha''] \<noteq> []
        \<and> (\<forall>t. count_list [''alpha'', ''beta'', ''alpha''] t = count_list [''beta'', ''alpha'', ''alpha''] t)"
    by simp_all
  have 4: "\<exists>r. cosineSimilarity (vectorize [''alpha'', ''beta'', ''alpha''])
               (vectorize [''beta'', ''alpha'', ''alpha'']) = Finite r
          \<and> ((1 - 1 / 2 ^ 53) / (1 + 1 / 2 ^ 53))
               ^ (length (vectorize [''alpha'', ''beta'', ''alpha'']) + 3) \<le> r
          \<and> r \<le> ((1 + 1 / 2 ^ 53) / (1 - 1 / 2 ^ 53))
               ^ (length (vectorize [''alpha'', ''beta'', ''alpha'']) + 3)"
    using cosineSimilarity_cases[of "[''alpha'', ''beta'', ''alpha'']" "[''beta'', ''alpha'', ''alpha'']"]
      h4 c4 by blast
  from 1 2 3 4 show ?thesis by blast
qed

section \<open>Properties of the statistics\<close>

lemma foldl_add_finite:
  "foldl js_add (Finite a) (map Finite xs) = Finite (foldl (\<lambda>a x. fl (a + x)) a xs)"
  by (induction xs arbitrary: a) simp_all

lemma stats_1_2:
  "computeStats [Finite 1, Finite 2] = \<lparr>mean = Finite (3 / 2), stdDev = Finite (1 / 2)\<rparr>"
  by (simp add: computeStats_def truthy_number_def
      fl_1 fl_3 fl_3_2 fl_1_2 fl_m1_2 fl_1_4 sqrt_quarter Let_def)

lemma rounded_sum_nonneg:
  "0 \<le> a \<Longrightarrow> \<forall>x \<in> set xs. 0 \<le> x \<Longrightarrow> 0 \<le> foldl (\<lambda>a x. fl (a + x)) a xs"
proof (induction xs arbitrary: a)
  case Nil
  then show ?case by simp
next
  case (Cons x xs)
  then have "0 \<le> fl (a + x)" by (intro fl_nonneg) simp
  with Cons show ?case by simp
qed

lemma computeStats_finite:
  assumes "xs \<noteq> []"
  shows "\<exists>sd. 0 \<le> sd
     \<and> (let mu = js_div (foldl js_add (Finite 0) (map Finite xs)) (Finite (real (length xs)))
        in Math_sqrt (js_div (foldl js_add (Finite 0) (map (\<lambda>x. Math_pow2 (js_sub x mu)) (map Finite xs)))
                        (Finite (real (length xs))))) = Finite sd
     \<and> stdDev (computeStats (map Finite xs)) = Finite (if sd = 0 then 1 else sd)"
proof -
  define n where "n = real (length xs)"
  from assms have n: "n \<noteq> 0" "0 < n" by (simp_all add: n_def)
  define mu where "mu = fl (foldl (\<lambda>a x. fl (a + x)) 0 xs / n)"
  have m: "js_div (foldl js_add (Finite 0) (map Finite xs)) (Finite n) = Finite mu"
    using n by (simp add: foldl_add_finite mu_def)
  define sq where "sq = map (\<lambda>x. fl ((fl (x - mu)) * (fl (x - mu)))) xs"
  have s: "map (\<lambda>x. Math_pow2 (js_sub x (Finite mu))) (map Finite xs) = map Finite sq"
    by (simp add: sq_def)
  define avg where "avg = fl (foldl (\<lambda>a x. fl (a + x)) 0 sq / n)"
  have a: "js_div (foldl js_add (Finite 0) (map Finite sq)) (Finite n) = Finite avg"
    using n by (simp add: foldl_add_finite avg_def)
  have "\<forall>x \<in> set sq. 0 \<le> x" unfolding sq_def by (auto intro: fl_nonneg)
  then have "0 \<le> foldl (\<lambda>a x. fl (a + x)) 0 sq" by (intro rounded_sum_nonneg) simp_all
  then have avg: "0 \<le> avg" unfolding avg_def using n by (intro fl_nonneg) simp
  define sd where "sd = fl (sqrt avg)"
  have sd: "0 \<le> sd" unfolding sd_def using avg by (intro fl_nonneg) simp
  have r: "Math_sqrt (Finite avg) = Finite sd" using avg by (simp add: sd_def)
  have 1: "(let mu = js_div (foldl js_add (Finite 0) (map Finite xs)) (Finite (real (length xs)))
        in Math_sqrt (js_div (foldl js_add (Finite 0) (map (\<lambda>x. Math_pow2 (js_sub x mu)) (map Finite xs)))
                        (Finite (real (length xs))))) = Finite sd"
    unfolding Let_def n_def[symmetric] m s a r ..
  have "stdDev (computeStats (map Finite xs))
      = (let mu = js_div (foldl js_add (Finite 0) (map Finite xs)) (Finite n);
             sd = Math_sqrt (js_div (foldl js_add (Finite 0)
                      (map (\<lambda>x. Math_pow2 (js_sub x mu)) (map Finite xs))) (Finite n))
         in if truthy_number sd then sd else Finite 1)"
    using assms by (simp add: computeStats_def Let_def n_def)
  also have "\<dots> = (if truthy_number (Finite sd) then Finite sd else Finite 1)"
    unfolding Let_def m s a r ..
  also have "\<dots> = Finite (if sd = 0 then 1 else sd)" by (simp add: truthy_number_def)
  finally have 2: "stdDev (computeStats (map Finite xs)) = Finite (if sd = 0 then 1 else sd)" .
  from sd 1 2 show ?thesis by blast
qed

lemma computeStats_stdDev_positive:
  "\<exists>s. stdDev (computeStats (map Finite xs)) = Finite s \<and> 0 < s"
proof (cases "xs = []")
  case True
  then show ?thesis by (simp add: computeStats_def)
next
  case False
  from computeStats_finite[OF False] obtain sd where "0 \<le> sd"
    and "stdDev (computeStats (map Finite xs)) = Finite (if sd = 0 then 1 else sd)"
    by blast
  then show ?thesis by (cases "sd = 0") auto
qed

lemma processFile_counts:
  "\<exists>xs. importCounts k = map Finite xs \<Longrightarrow> \<exists>xs. importCounts (processFile fs f k) = map Finite xs"
proof -
  assume "\<exists>xs. importCounts k = map Finite xs"
  then obtain xs where xs: "importCounts k = map Finite xs" by blast
  show ?thesis
  proof (cases "existsSync fs f")
    case False
    with xs show ?thesis by (auto simp add: processFile_def)
  next
    case True
    show ?thesis
    proof (cases "readFileSync fs f")
      case (Inl e)
      with True xs show ?thesis by (auto simp add: processFile_def)
    next
      case (Inr content)
      with True xs have "importCounts (processFile fs f k) = map Finite (xs @ [real (countImports content)])"
        by (simp add: processFile_def)
      then show ?thesis by blast
    qed
  qed
qed

lemma processFiles_counts:
  "\<exists>xs. importCounts k = map Finite xs \<Longrightarrow>
   \<exists>xs. importCounts (foldl (\<lambda>k f. processFile fs f k) k files) = map Finite xs"
proof (induction files arbitrary: k)
  case Nil
  then show ?case by simp
next
  case (Cons f files)
  from processFile_counts[OF Cons.prems] Cons.IH show ?case by simp
qed

lemma learn_counts:
  "\<not> isLearning k \<Longrightarrow> \<exists>xs. importCounts (snd (learn fs filePaths k)) = map Finite xs"
proof -
  assume "\<not> isLearning k"
  moreover have "\<exists>xs. importCounts (k\<lparr>isLearning := True, importCounts := [], vectors := Map.empty\<rparr>) = map Finite xs"
    by simp
  from processFiles_counts[OF this, of fs "take MAX_FILES filePaths"]
  have "\<exists>xs. importCounts (foldl (\<lambda>k f. processFile fs f k)
       (k\<lparr>isLearning := True, importCounts := [], vectors := Map.empty\<rparr>) (take MAX_FILES filePaths))
      = map Finite xs" .
  ultimately show ?thesis by (simp add: learn_def Let_def)
qed

lemma learn_statsModel:
  "\<not> isLearning k \<Longrightarrow>
     statsModel (snd (learn fs filePaths k))
       = Some (computeStats (importCounts (snd (learn fs filePaths k))))"
  by (simp add: learn_def Let_def)

lemma example_counts:
  "importCounts (snd (learn
      [''/p/a.js'' \<mapsto> RegularFile ''import x'' 5 8,
       ''/p/b.js'' \<mapsto> RegularFile (''import x'' @ [CHR 0x0A] @ ''require y'') 5 18]
      [''/p/a.js'', ''/p/b.js'']
      \<lparr>vectors = Map.empty, importCounts = [], loc = [], statsModel = None, isLearning = False\<rparr>))
    = [Finite 1, Finite 2]"
proof -
  have c1: "countImports ''import x'' = 1" by code_simp
  have c2: "countImports (''import x'' @ [CHR 0x0A] @ ''require y'') = 2" by code_simp
  show ?thesis
    using c1 c2
    by (simp add: learn_def Let_def MAX_FILES_def processFile_def existsSync_def readFileSync_def)
qed

lemma example_learn:
  "statsModel (snd (learn
      [''/p/a.js'' \<mapsto> RegularFile ''import x'' 5 8,
       ''/p/b.js'' \<mapsto> RegularFile (''import x'' @ [CHR 0x0A] @ ''require y'') 5 18]
      [''/p/a.js'', ''/p/b.js'']
      \<lparr>vectors = Map.empty, importCounts = [], loc = [], statsModel = None, isLearning = False\<rparr>))
   = Some \<lparr>mean = Finite (3 / 2), stdDev = Finite (1 / 2)\<rparr>"
  using learn_statsModel[of "\<lparr>vectors = Map.empty, importCounts = [], loc = [], statsModel = None, isLearning = False\<rparr>"]
    example_counts
  by (simp add: stats_1_2)

text \<open>
  C5, as the claim states it, fails: the standard deviation is not floored to 1. After a
  learning pass over two files with 1 and 2 imports the model has mean 1.5 and standard
  deviation 0.5; every step of this computation is exact in binary64.
\<close>

theorem learn_stdDev_below_one:
  "map_option stdDev (statsModel (snd (learn
      [''/p/a.js'' \<mapsto> RegularFile ''import x'' 5 8,
       ''/p/b.js'' \<mapsto> RegularFile (''import x'' @ [CHR 0x0A] @ ''require y'') 5 18]
      [''/p/a.js'', ''/p/b.js'']
      \<lparr>vectors = Map.empty, importCounts = [], loc = [], statsModel = None, isLearning = False\<rparr>)))
     = Some (Finite (1 / 2))
   \<and> \<not> (1 \<le> (1 / 2 :: real))"
  using example_learn by simp

text \<open>
  C5, amended. After every completed learning pass the stats model is the one computed
  from the import counts of the pass, and its standard deviation is a finite number
  greater than 0: it is 1 when there are no counts or when the computed deviation is 0,
  and the computed deviation otherwise, which may be below 1. (\<open>stdDev || 1\<close> replaces a
  falsy value, zero or \<open>NaN\<close>, and the deviation computed from the counts of a pass is a
  finite number that is not negative, so it is replaced only when it is zero; the
  source's comment is \<open>Prevent zero stdDev\<close>.)
\<close>

theorem learn_stdDev_positive:
  "(\<not> isLearning k \<longrightarrow>
      (\<exists>m s. statsModel (snd (learn fs filePaths k)) = Some m
         \<and> m = computeStats (importCounts (snd (learn fs filePaths k)))
         \<and> stdDev m = Finite s \<and> 0 < s))
   \<and> stdDev (computeStats []) = Finite 1
   \<and> (arr \<noteq> [] \<longrightarrow>
        stdDev (computeStats arr)
          = (let mu = js_div (foldl js_add (Finite 0) arr) (Finite (real (length arr)));
                 sd = Math_sqrt (js_div (foldl js_add (Finite 0) (map (\<lambda>x. Math_pow2 (js_sub x mu)) arr))
                                   (Finite (real (length arr))))
             in if sd = Finite 0 \<or> sd = NaN then Finite 1 else sd))
   \<and> (\<not> isLearning k \<and> importCounts (snd (learn fs filePaths k)) \<noteq> [] \<longrightarrow>
        (\<exists>sd. 0 \<le> sd
           \<and> (let counts = importCounts (snd (learn fs filePaths k));
                  mu = js_div (foldl js_add (Finite 0) counts) (Finite (real (length counts)))
              in Math_sqrt (js_div (foldl js_add (Finite 0) (map (\<lambda>x. Math_pow2 (js_sub x mu)) counts))
                                   (Finite (real (length counts))))) = Finite sd
           \<and> map_option stdDev (statsModel (snd (learn fs filePaths k)))
               = Some (Finite (if sd = 0 then 1 else sd))))"
proof (intro conjI impI)
  assume n: "\<not> isLearning k"
  from learn_counts[OF n] obtain ys where "importCounts (snd (learn fs filePaths k)) = map Finite ys"
    by blast
  with computeStats_stdDev_positive[of ys] learn_statsModel[OF n, of fs filePaths]
  show "\<exists>m s. statsModel (snd (learn fs filePaths k)) = Some m
         \<and> m = computeStats (importCounts (snd (learn fs filePaths k)))
         \<and> stdDev m = Finite s \<and> 0 < s"
    by auto
next
  show "stdDev (computeStats []) = Finite 1" by (simp add: computeStats_def)
next
  assume "arr \<noteq> []"
  then show "stdDev (computeStats arr)
          = (let mu = js_div (foldl js_add (Finite 0) arr) (Finite (real (length arr)));
                 sd = Math_sqrt (js_div (foldl js_add (Finite 0) (map (\<lambda>x. Math_pow2 (js_sub x mu)) arr))
                                   (Finite (real (length arr))))
             in if sd = Finite 0 \<or> sd = NaN then Finite 1 else sd)"
    by (simp add: computeStats_def Let_def truthy_number_def)
next
  assume h: "\<not> isLearning k \<and> importCounts (snd (learn fs filePaths k)) \<noteq> []"
  from learn_counts[of k fs filePaths] h obtain ys
    where ys: "importCounts (snd (learn fs filePaths k)) = map Finite ys"
    by blast
  with h have ne: "ys \<noteq> []" by auto
  have l: "length (map Finite ys) = length ys" by simp
  from computeStats_finite[OF ne] obtain sd where sd: "0 \<le> sd"
    and c: "(let mu = js_div (foldl js_add (Finite 0) (map Finite ys)) (Finite (real (length ys)))
        in Math_sqrt (js_div (foldl js_add (Finite 0) (map (\<lambda>x. Math_pow2 (js_sub x mu)) (map Finite ys)))
                        (Finite (real (length ys))))) = Finite sd"
    and s: "stdDev (computeStats (map Finite ys)) = Finite (if sd = 0 then 1 else sd)"
    by blast
  have 1: "(let counts = importCounts (snd (learn fs filePaths k));
                  mu = js_div (foldl js_add (Finite 0) counts) (Finite (real (length counts)))
              in Math_sqrt (js_div (foldl js_add (Finite 0) (map (\<lambda>x. Math_pow2 (js_sub x mu)) counts))
                                   (Finite (real (length counts))))) = Finite sd"
    unfolding ys using c unfolding Let_def l .
  have 2: "map_option stdDev (statsModel (snd (learn fs filePaths k)))
               = Some (Finite (if sd = 0 then 1 else sd))"
    using learn_statsModel[of k fs filePaths] h s unfolding ys by simp
  from sd 1 2
  show "\<exists>sd. 0 \<le> sd
           \<and> (let counts = importCounts (snd (learn fs filePaths k));
                  mu = js_div (foldl js_add (Finite 0) counts) (Finite (real (length counts)))
              in Math_sqrt (js_div (foldl js_add (Finite 0) (map (\<lambda>x. Math_pow2 (js_sub x mu)) counts))
                                   (Finite (real (length counts))))) = Finite sd
           \<and> map_option stdDev (statsModel (snd (learn fs filePaths k)))
               = Some (Finite (if sd = 0 then 1 else sd))"
    by blast
qed

theorem learn_stdDev_positive_witness:
  "statsModel (snd (learn
      [''/p/a.js'' \<mapsto> RegularFile ''import x'' 5 8,
       ''/p/b.js'' \<mapsto> RegularFile (''import x'' @ [CHR 0x0A] @ ''require y'') 5 18]
      [''/p/a.js'', ''/p/b.js'']
      \<lparr>vectors = Map.empty, importCounts = [], loc = [], statsModel = None, isLearning = False\<rparr>))
     = Some \<lparr>mean = Finite (3 / 2), stdDev = Finite (1 / 2)\<rparr>
   \<and> stdDev (computeStats [Finite 1, Finite 2]) = Finite (1 / 2)
   \<and> (\<exists>sd. 0 \<le> sd
         \<and> map_option stdDev (statsModel (snd (learn
              [''/p/a.js'' \<mapsto> RegularFile ''import x'' 5 8,
               ''/p/b.js'' \<mapsto> RegularFile (''import x'' @ [CHR 0x0A] @ ''require y'') 5 18]
              [''/p/a.js'', ''/p/b.js'']
              \<lparr>vectors = Map.empty, importCounts = [], loc = [], statsModel = None,
                 isLearning = False\<rparr>)))
             = Some (Finite (if sd = 0 then 1 else sd)))"
proof -
  let ?k = "\<lparr>vectors = Map.empty, importCounts = [], loc = [], statsModel = None, isLearning = False\<rparr>"
  let ?fs = "[''/p/a.js'' \<mapsto> RegularFile ''import x'' 5 8,
       ''/p/b.js'' \<mapsto> RegularFile (''import x'' @ [CHR 0x0A] @ ''require y'') 5 18]"
  have h: "\<not> isLearning ?k \<and> importCounts (snd (learn ?fs [''/p/a.js'', ''/p/b.js''] ?k)) \<noteq> []"
    unfolding example_counts by simp
  from learn_stdDev_positive[of ?k ?fs "[''/p/a.js'', ''/p/b.js'']" "[Finite 1, Finite 2]"] h
  obtain sd where sd: "0 \<le> sd"
    "map_option stdDev (statsModel (snd (learn ?fs [''/p/a.js'', ''/p/b.js''] ?k)))
       = Some (Finite (if sd = 0 then 1 else sd))"
    by blast
  then have "\<exists>sd. 0 \<le> sd
         \<and> map_option stdDev (statsModel (snd (learn ?fs [''/p/a.js'', ''/p/b.js''] ?k)))
             = Some (Finite (if sd = 0 then 1 else sd))"
    by blast
  moreover note example_learn stats_1_2
  ultimately show ?thesis by simp
qed

end
